theory Spec2Isabelle
  imports Main
begin

section \<open>File registry (models/FileRegistry.ts)\<close>

text \<open>
  Identifiers are JavaScript numbers; reflection ids and file ids are natural numbers here.
  A \<open>Map\<close> is a partial function; a missing key reads as \<open>None\<close> (\<open>undefined\<close>).
  Paths are strings of code units.
\<close>

type_synonym ReflectionId = nat
type_synonym FileId = nat
type_synonym NormalizedPath = string

record FileRegistry =
  nextId :: nat
  mediaToReflection :: "FileId \<rightharpoonup> ReflectionId"
  mediaToPath :: "FileId \<rightharpoonup> NormalizedPath"
  reflectionToPath :: "ReflectionId \<rightharpoonup> NormalizedPath"
  pathToMedia :: "NormalizedPath \<rightharpoonup> FileId"
  names :: "FileId \<rightharpoonup> string"
  nameUsage :: "string \<rightharpoonup> nat"

text \<open>The field initialisers of the class: \<open>nextId = 1\<close> and six empty maps.\<close>

definition newFileRegistry :: FileRegistry where
  "newFileRegistry =
     \<lparr> nextId = 1, mediaToReflection = Map.empty, mediaToPath = Map.empty,
       reflectionToPath = Map.empty, pathToMedia = Map.empty,
       names = Map.empty, nameUsage = Map.empty \<rparr>"

text \<open>
  \<open>absolute.indexOf("#")\<close> with the two \<open>substring\<close> calls: the text before the first
  \<open>#\<close>, and the text after it when there is one.
\<close>

definition stripAnchor :: "string \<Rightarrow> string \<times> string option" where
  "stripAnchor absolute =
     (if CHR ''#'' \<in> set absolute
      then (takeWhile (\<lambda>c. c \<noteq> CHR ''#'') absolute,
            Some (tl (dropWhile (\<lambda>c. c \<noteq> CHR ''#'') absolute)))
      else (absolute, None))"

text \<open>
  \<open>registerAbsolute\<close> returns \<open>{ target, anchor }\<close> and the updated registry.
  \<open>if (existing)\<close> is a truthiness test: a stored id 0 would count as absent.
\<close>

definition registerAbsolute ::
  "FileRegistry \<Rightarrow> NormalizedPath \<Rightarrow> (FileId \<times> string option) \<times> FileRegistry" where
  "registerAbsolute fr absolute0 =
     (let (absolute, anchor) = stripAnchor absolute0 in
      case pathToMedia fr absolute of
        Some existing \<Rightarrow>
          if existing \<noteq> 0 then ((existing, anchor), fr)
          else ((nextId fr, anchor),
                fr\<lparr> mediaToPath := (mediaToPath fr)(nextId fr \<mapsto> absolute),
                    pathToMedia := (pathToMedia fr)(absolute \<mapsto> nextId fr),
                    nextId := nextId fr + 1 \<rparr>)
      | None \<Rightarrow>
          ((nextId fr, anchor),
           fr\<lparr> mediaToPath := (mediaToPath fr)(nextId fr \<mapsto> absolute),
               pathToMedia := (pathToMedia fr)(absolute \<mapsto> nextId fr),
               nextId := nextId fr + 1 \<rparr>))"

text \<open>\<open>FileRegistry.registerReflection(absolute, reflection)\<close>; the reflection is given by its id.\<close>

definition fr_registerReflection ::
  "FileRegistry \<Rightarrow> NormalizedPath \<Rightarrow> ReflectionId \<Rightarrow> FileRegistry" where
  "fr_registerReflection fr absolute r =
     (let ((target, anchor), fr1) = registerAbsolute fr absolute in
      fr1\<lparr> reflectionToPath := (reflectionToPath fr1)(r \<mapsto> absolute),
           mediaToReflection := (mediaToReflection fr1)(target \<mapsto> r) \<rparr>)"

definition registerReflectionPath ::
  "FileRegistry \<Rightarrow> NormalizedPath \<Rightarrow> ReflectionId \<Rightarrow> FileRegistry" where
  "registerReflectionPath fr absolute r =
     (let ((target, anchor), fr1) = registerAbsolute fr absolute in
      fr1\<lparr> mediaToReflection := (mediaToReflection fr1)(target \<mapsto> r) \<rparr>)"

definition getReflectionPath :: "FileRegistry \<Rightarrow> ReflectionId \<Rightarrow> string option" where
  "getReflectionPath fr r = reflectionToPath fr r"

text \<open>
  \<open>FileRegistry.removeReflection\<close>. \<open>if (absolute)\<close> is false for a missing entry and for
  the empty string. \<open>pathToMedia.get(absolute)!\<close> may be \<open>undefined\<close>, and deleting the key
  \<open>undefined\<close> from a map of numbers removes nothing.
\<close>

definition fr_removeReflection :: "FileRegistry \<Rightarrow> ReflectionId \<Rightarrow> FileRegistry" where
  "fr_removeReflection fr r =
     (case reflectionToPath fr r of
        None \<Rightarrow> fr
      | Some absolute \<Rightarrow>
          if absolute = [] then fr
          else (case pathToMedia fr absolute of
                  None \<Rightarrow> fr
                | Some media \<Rightarrow> fr\<lparr> mediaToReflection := (mediaToReflection fr)(media := None) \<rparr>))"

text \<open>
  \<open>resolve(id, project)\<close> answers a reflection, a path or \<open>undefined\<close>. The project is
  given by its \<open>getReflectionById\<close>; \<open>if (reflId)\<close> is false for a missing entry and for id 0.
\<close>

datatype 'r resolved = ResolvedReflection 'r | ResolvedPath string

definition resolve ::
  "FileRegistry \<Rightarrow> FileId \<Rightarrow> (ReflectionId \<Rightarrow> 'r option) \<Rightarrow> 'r resolved option" where
  "resolve fr i getReflectionById =
     (case mediaToReflection fr i of
        Some reflId \<Rightarrow>
          if reflId \<noteq> 0 then map_option ResolvedReflection (getReflectionById reflId)
          else map_option ResolvedPath (mediaToPath fr i)
      | None \<Rightarrow> map_option ResolvedPath (mediaToPath fr i))"

definition resolvePath :: "FileRegistry \<Rightarrow> FileId \<Rightarrow> string option" where
  "resolvePath fr i = mediaToPath fr i"

subsection \<open>Display names\<close>

text \<open>Decimal rendering of a counter inside a template literal.\<close>

definition digitChar :: "nat \<Rightarrow> char" where
  "digitChar d = ''0123456789'' ! d"

fun showNat :: "nat \<Rightarrow> string" where
  "showNat n = (if n < 10 then [digitChar n] else showNat (n div 10) @ [digitChar (n mod 10)])"

declare showNat.simps [simp del]

text \<open>The number a decimal digit stands for, by which a rendering is read back.\<close>

definition digitValue :: "char \<Rightarrow> nat" where
  "digitValue c = of_char c - 48"

text \<open>
  Modelled from the spec: \<open>NormalizedPathUtils.basename\<close> and
  \<open>NormalizedPathUtils.splitFilename\<close> are not among the sources. The spec speaks of
  "the path's base name" and of a counter "appended before the extension": the base name is
  the text after the last \<open>/\<close>, the extension starts at the last \<open>.\<close> of the base name
  (a name with no dot, or only a leading one, has no extension).
\<close>

definition basename :: "NormalizedPath \<Rightarrow> string" where
  "basename p = rev (takeWhile (\<lambda>c. c \<noteq> CHR ''/'') (rev p))"

definition splitFilename :: "string \<Rightarrow> string \<times> string" where
  "splitFilename file =
     (let ext = rev (takeWhile (\<lambda>c. c \<noteq> CHR ''.'') (rev file)) in
      if CHR ''.'' \<in> set file \<and> length ext + 1 < length file
      then (take (length file - length ext - 1) file, CHR ''.'' # ext)
      else (file, []))"

text \<open>
  The \<open>while (this.nameUsage.has(...)) ++counter\<close> loop of \<open>getName\<close>. The loop has no
  bound of its own: it ends because a \<open>Map\<close> has finitely many keys. A map of the model may
  have a key for every counter, so the function is partial: \<open>None\<close> stands for a loop that
  never ends.
\<close>

partial_function (option) freeCounter ::
  "(string \<rightharpoonup> nat) \<Rightarrow> string \<Rightarrow> string \<Rightarrow> nat \<Rightarrow> nat option" where
  "freeCounter usage nm ext counter =
     (if usage (nm @ ''-'' @ showNat counter @ ext) \<noteq> None
      then freeCounter usage nm ext (counter + 1)
      else Some counter)"

declare freeCounter.simps [code]

text \<open>
  \<open>getName(id)\<close> returns the name (or \<open>undefined\<close>) and the updated registry.
  \<open>if (!absolute) return\<close> covers a missing path and the empty path.
\<close>

definition getName :: "FileRegistry \<Rightarrow> FileId \<Rightarrow> (string option \<times> FileRegistry) option" where
  "getName fr i =
     (case mediaToPath fr i of
        None \<Rightarrow> Some (None, fr)
      | Some absolute \<Rightarrow>
          if absolute = [] then Some (None, fr)
          else if names fr i \<noteq> None then Some (names fr i, fr)
          else
            (let file = basename absolute in
             if nameUsage fr file = None
             then Some (Some file,
                        fr\<lparr> nameUsage := (nameUsage fr)(file \<mapsto> 1),
                            names := (names fr)(i \<mapsto> file) \<rparr>)
             else
               (let (nm, ext) = splitFilename file in
                case freeCounter (nameUsage fr) nm ext (the (nameUsage fr file)) of
                  None \<Rightarrow> None
                | Some counter \<Rightarrow>
                    (let suffixed = nm @ ''-'' @ showNat counter @ ext in
                     Some (Some suffixed,
                           fr\<lparr> nameUsage := ((nameUsage fr)(file \<mapsto> counter + 1))
                                              (suffixed \<mapsto> counter + 1),
                               names := (names fr)(i \<mapsto> suffixed) \<rparr>)))))"

text \<open>
  Every file id the registry hands out is positive, so the truthiness tests on ids never
  mistake a stored id for a missing one.
\<close>

definition registry_ok :: "FileRegistry \<Rightarrow> bool" where
  "registry_ok fr \<longleftrightarrow>
     nextId fr \<noteq> 0 \<and>
     (\<forall>p f. pathToMedia fr p = Some f \<longrightarrow> f \<noteq> 0 \<and> f < nextId fr \<and> mediaToPath fr f = Some p)"

text \<open>Three files named \<open>index.md\<close> in three directories, registered in this order.\<close>

definition threeIndexFiles :: FileRegistry where
  "threeIndexFiles =
     snd (registerAbsolute (snd (registerAbsolute
       (snd (registerAbsolute newFileRegistry ''/a/index.md'')) ''/b/index.md'')) ''/c/index.md'')"

text \<open>
  Files \<open>/a/index-1.md\<close>, \<open>/a/index.md\<close> and \<open>/b/index.md\<close>, registered in this order, after
  the first two have been named.
\<close>

definition indexOneTaken :: FileRegistry where
  "indexOneTaken =
     snd (the (getName (snd (the (getName
       (snd (registerAbsolute (snd (registerAbsolute
          (snd (registerAbsolute newFileRegistry ''/a/index-1.md'')) ''/a/index.md'')) ''/b/index.md''))
       1))) 2))"

section \<open>Reflections and the project store (models/ProjectReflection.ts)\<close>

text \<open>
  A \<open>ReflectionSymbolId\<close> is used as the key of a \<open>StableKeyMap\<close>; the model takes the
  stable key itself.
\<close>

type_synonym ReflectionSymbolId = string

datatype ReflectionVariant =
  Project | Declaration | Signature | Param | TypeParam | Document | Reference

datatype ReflectionKind =
  KindProject | KindModule | KindTypeParameter | KindReference | KindDocument | KindOther nat

text \<open>The slots named in the \<open>switch\<close> of \<open>ProjectReflection.removeReflection\<close>.\<close>

datatype TraverseProperty =
  Children | Documents | Parameters | TypeLiteral | TypeParameter
  | Signatures | IndexSignature | GetSignature | SetSignature

text \<open>
  Of the type model only the shapes the store reads or writes: a type that embeds a
  declaration, the intrinsic type \<open>removeReflection\<close> puts in its place, and any other type.
\<close>

datatype SomeType = ReflectionType ReflectionId | IntrinsicType string | OtherType string

text \<open>
  Modelled from the spec: the classes \<open>Reflection\<close>, \<open>ContainerReflection\<close>,
  \<open>DeclarationReflection\<close>, \<open>SignatureReflection\<close> and \<open>ReferenceReflection\<close> are not among the
  sources. A reflection has an id, a name, a kind, a variant and a parent; the structural
  nodes hold the typed slots children, documents, signatures, index signatures, get and set
  signature, parameters, type parameters and a type; a reference holds its target.
  Reflections are objects: one refers to another by its id, and \<open>objs\<close> below maps an id to
  the object, so the id of an object is the key it is found under and is no field of the
  record. An array slot that the code deletes when it becomes empty is an option.
\<close>

record Reflection =
  name :: string
  kind :: ReflectionKind
  variant :: ReflectionVariant
  parent :: "ReflectionId option"
  children :: "ReflectionId list option"
  documents :: "ReflectionId list option"
  signatures :: "ReflectionId list option"
  indexSignatures :: "ReflectionId list option"
  getSignature :: "ReflectionId option"
  setSignature :: "ReflectionId option"
  parameters :: "ReflectionId list option"
  typeParameters :: "ReflectionId list option"
  rtype :: "SomeType option"
  target :: "ReflectionId option"
  groups :: "string list option"
  categories :: "string list option"

text \<open>An entry of \<open>symbolToReflectionIdMap\<close>: \<open>number | number[]\<close>.\<close>

datatype SymbolEntry = OneId ReflectionId | ManyIds "ReflectionId list"

text \<open>
  The fields of \<open>ProjectReflection\<close>, with the objects it refers to. \<open>reflections\<close> is the
  id table \<open>{ [id: number]: Reflection }\<close>: the list of its keys in the order \<open>for ... in\<close>
  enumerates them (ascending); the value under a key is the object of that id.
  \<open>reflectionChildren\<close> is a \<open>DefaultMap\<close> whose default is the empty array.
\<close>

record ProjectReflection =
  this_id :: ReflectionId
  objs :: "ReflectionId \<rightharpoonup> Reflection"
  symbolToReflectionIdMap :: "ReflectionSymbolId \<rightharpoonup> SymbolEntry"
  reflectionIdToSymbolIdMap :: "ReflectionId \<rightharpoonup> ReflectionSymbolId"
  removedSymbolIds :: "ReflectionSymbolId set"
  referenceGraph :: "(ReflectionId \<rightharpoonup> ReflectionId list) option"
  reflectionChildren :: "ReflectionId \<rightharpoonup> ReflectionId list"
  reflections :: "ReflectionId list"
  packageName :: "string option"
  packageVersion :: "string option"
  files :: FileRegistry

text \<open>
  Modelled from the spec: the constructor of \<open>Reflection\<close>. The id is "process-wide unique,
  monotonically assigned, never reused"; the model takes the id the counter gives as an
  argument, and a caller passes one that no object has.
\<close>

definition blankReflection ::
  "ReflectionVariant \<Rightarrow> string \<Rightarrow> ReflectionKind \<Rightarrow> ReflectionId option \<Rightarrow> Reflection" where
  "blankReflection v nm k par =
     \<lparr> name = nm, kind = k, variant = v, parent = par,
       children = None, documents = None, signatures = None, indexSignatures = None,
       getSignature = None, setSignature = None, parameters = None, typeParameters = None,
       rtype = None, target = None, groups = None, categories = None \<rparr>"

definition newReflection ::
  "ProjectReflection \<Rightarrow> ReflectionId \<Rightarrow> ReflectionVariant \<Rightarrow> string \<Rightarrow> ReflectionKind
     \<Rightarrow> ReflectionId option \<Rightarrow> ProjectReflection" where
  "newReflection st i v nm k par = st\<lparr> objs := (objs st)(i \<mapsto> blankReflection v nm k par) \<rparr>"

text \<open>\<open>new ReferenceReflection(name, reflection, parent)\<close>: a reference to \<open>reflection\<close>.\<close>

definition newReferenceReflection ::
  "ProjectReflection \<Rightarrow> ReflectionId \<Rightarrow> string \<Rightarrow> ReflectionId \<Rightarrow> ReflectionId option
     \<Rightarrow> ProjectReflection" where
  "newReferenceReflection st i nm tgt par =
     st\<lparr> objs := (objs st)(i \<mapsto> (blankReflection Reference nm KindReference par)
                                    \<lparr> target := Some tgt \<rparr>) \<rparr>"

text \<open>
  The constructor of \<open>ProjectReflection\<close>: \<open>super(name, ReflectionKind.Project)\<close>,
  \<open>this.reflections[this.id] = this\<close>, \<open>this.files = registry\<close>, and the field initialisers.
\<close>

definition newProjectReflection ::
  "ReflectionId \<Rightarrow> string \<Rightarrow> FileRegistry \<Rightarrow> ProjectReflection" where
  "newProjectReflection i nm registry =
     \<lparr> this_id = i,
       objs = [i \<mapsto> blankReflection Project nm KindProject None],
       symbolToReflectionIdMap = Map.empty,
       reflectionIdToSymbolIdMap = Map.empty,
       removedSymbolIds = {},
       referenceGraph = None,
       reflectionChildren = Map.empty,
       reflections = [i],
       packageName = None,
       packageVersion = None,
       files = registry \<rparr>"

text \<open>\<open>this.reflections[id] = reflection\<close> and \<open>delete this.reflections[id]\<close> on the key list.\<close>

definition setKey :: "ReflectionId \<Rightarrow> ReflectionId list \<Rightarrow> ReflectionId list" where
  "setKey i ks = (if i \<in> set ks then ks else insort i ks)"

definition deleteKey :: "ReflectionId \<Rightarrow> ReflectionId list \<Rightarrow> ReflectionId list" where
  "deleteKey i ks = removeAll i ks"

definition getReflectionById :: "ProjectReflection \<Rightarrow> ReflectionId \<Rightarrow> Reflection option" where
  "getReflectionById st i = (if i \<in> set (reflections st) then objs st i else None)"

text \<open>\<open>reflectionChildren.getNoInsert(id) || []\<close>.\<close>

definition childrenOf :: "ProjectReflection \<Rightarrow> ReflectionId \<Rightarrow> ReflectionId list" where
  "childrenOf st p = (case reflectionChildren st p of None \<Rightarrow> [] | Some cs \<Rightarrow> cs)"

text \<open>
  \<open>registerSymbolId(reflection, id)\<close>. \<open>if (previous)\<close> is a truthiness test: it fails for
  a missing entry and for the number 0; an array, also an empty one, passes.
\<close>

definition registerSymbolId ::
  "ProjectReflection \<Rightarrow> ReflectionId \<Rightarrow> ReflectionSymbolId \<Rightarrow> ProjectReflection" where
  "registerSymbolId st r s =
     st\<lparr> removedSymbolIds := removedSymbolIds st - {s},
         reflectionIdToSymbolIdMap := (reflectionIdToSymbolIdMap st)(r \<mapsto> s),
         symbolToReflectionIdMap :=
           (case symbolToReflectionIdMap st s of
              None \<Rightarrow> (symbolToReflectionIdMap st)(s \<mapsto> OneId r)
            | Some (OneId previous) \<Rightarrow>
                if previous \<noteq> 0
                then (symbolToReflectionIdMap st)(s \<mapsto> ManyIds [previous, r])
                else (symbolToReflectionIdMap st)(s \<mapsto> OneId r)
            | Some (ManyIds previous) \<Rightarrow>
                (symbolToReflectionIdMap st)(s \<mapsto> ManyIds (previous @ [r]))) \<rparr>"

definition symbolIdHasBeenRemoved :: "ProjectReflection \<Rightarrow> ReflectionSymbolId \<Rightarrow> bool" where
  "symbolIdHasBeenRemoved st s \<longleftrightarrow> s \<in> removedSymbolIds st"

text \<open>
  \<open>getReflectionsFromSymbolId\<close>: the elements are \<open>this.getReflectionById(id)!\<close>, which
  is \<open>undefined\<close> for an id that is not in the table.
\<close>

definition getReflectionsFromSymbolId ::
  "ProjectReflection \<Rightarrow> ReflectionSymbolId \<Rightarrow> Reflection option list" where
  "getReflectionsFromSymbolId st s =
     (case symbolToReflectionIdMap st s of
        Some (OneId i) \<Rightarrow> [getReflectionById st i]
      | Some (ManyIds is) \<Rightarrow> map (getReflectionById st) is
      | None \<Rightarrow> [])"

definition getReflectionFromSymbolId ::
  "ProjectReflection \<Rightarrow> ReflectionSymbolId \<Rightarrow> Reflection option" where
  "getReflectionFromSymbolId st s =
     (case getReflectionsFromSymbolId st s of [] \<Rightarrow> None | r # _ \<Rightarrow> r)"

definition getSymbolIdFromReflection ::
  "ProjectReflection \<Rightarrow> ReflectionId \<Rightarrow> ReflectionSymbolId option" where
  "getSymbolIdFromReflection st r = reflectionIdToSymbolIdMap st r"

text \<open>
  \<open>registerReflection(reflection, id, filePath)\<close>. The reflection is an object of \<open>objs\<close>,
  given by its id; \<open>if (filePath)\<close> fails for \<open>undefined\<close> and for the empty string.
\<close>

definition registerReflection ::
  "ProjectReflection \<Rightarrow> ReflectionId \<Rightarrow> ReflectionSymbolId option \<Rightarrow> NormalizedPath option
     \<Rightarrow> ProjectReflection" where
  "registerReflection st r symbolId filePath =
     (case objs st r of
        None \<Rightarrow> st
      | Some reflection \<Rightarrow>
          (let st1 = st\<lparr> referenceGraph := None \<rparr>;
               st2 = (case parent reflection of
                        None \<Rightarrow> st1
                      | Some p \<Rightarrow>
                          st1\<lparr> reflectionChildren :=
                                 (reflectionChildren st1)(p \<mapsto> childrenOf st1 p @ [r]) \<rparr>);
               st3 = st2\<lparr> reflections := setKey r (reflections st2) \<rparr>;
               st4 = (case symbolId of None \<Rightarrow> st3 | Some s \<Rightarrow> registerSymbolId st3 r s)
           in case filePath of
                None \<Rightarrow> st4
              | Some path \<Rightarrow>
                  if path = [] then st4
                  else st4\<lparr> files := fr_registerReflection (files st4) path r \<rparr>))"

text \<open>
  Modelled from the spec: \<open>ReferenceReflection.tryGetTargetReflection\<close> is not among the
  sources. The target "resolves to another reflection" and resolution "may fail if the
  target was removed": a lookup of the target's id in the id table, which answers the
  reflection (here its id) when it is there.
\<close>

definition tryGetTargetReflection :: "ProjectReflection \<Rightarrow> Reflection \<Rightarrow> ReflectionId option" where
  "tryGetTargetReflection st ref =
     (case target ref of
        None \<Rightarrow> None
      | Some t \<Rightarrow> (case getReflectionById st t of None \<Rightarrow> None | Some tgt \<Rightarrow> Some t))"

text \<open>
  \<open>getReferenceGraph\<close>: when there is no cached graph, one is built from the id table in
  key order; \<open>ref instanceof ReferenceReflection\<close> is the test on the variant.
\<close>

definition addReference ::
  "ProjectReflection \<Rightarrow> (ReflectionId \<rightharpoonup> ReflectionId list) \<Rightarrow> ReflectionId
     \<Rightarrow> (ReflectionId \<rightharpoonup> ReflectionId list)" where
  "addReference st graph i =
     (case objs st i of
        None \<Rightarrow> graph
      | Some ref \<Rightarrow>
          if variant ref = Reference
          then (case tryGetTargetReflection st ref of
                  None \<Rightarrow> graph
                | Some tgt \<Rightarrow>
                    graph(tgt \<mapsto> (case graph tgt of None \<Rightarrow> [] | Some refs \<Rightarrow> refs) @ [i]))
          else graph)"

definition buildReferenceGraph :: "ProjectReflection \<Rightarrow> (ReflectionId \<rightharpoonup> ReflectionId list)" where
  "buildReferenceGraph st = foldl (addReference st) Map.empty (reflections st)"

definition getReferenceGraph :: "ProjectReflection \<Rightarrow> ProjectReflection" where
  "getReferenceGraph st =
     (case referenceGraph st of
        Some graph \<Rightarrow> st
      | None \<Rightarrow> st\<lparr> referenceGraph := Some (buildReferenceGraph st) \<rparr>)"

text \<open>\<open>graph.get(id) ?? []\<close> on the cached graph.\<close>

definition referrers :: "ProjectReflection \<Rightarrow> ReflectionId \<Rightarrow> ReflectionId list" where
  "referrers st i =
     (case referenceGraph st of
        None \<Rightarrow> []
      | Some graph \<Rightarrow> (case graph i of None \<Rightarrow> [] | Some refs \<Rightarrow> refs))"

text \<open>
  Modelled from the spec: \<open>removeIfPresent\<close> is not among the sources; it removes the item
  from the array when it is there. The code that follows each call deletes the slot when
  the array has become empty.
\<close>

definition removeIfPresent :: "'a list \<Rightarrow> 'a \<Rightarrow> 'a list" where
  "removeIfPresent arr item = remove1 item arr"

definition removeFromSlot :: "ReflectionId list option \<Rightarrow> ReflectionId \<Rightarrow> ReflectionId list option" where
  "removeFromSlot slot r =
     (case slot of
        None \<Rightarrow> None
      | Some arr \<Rightarrow> if removeIfPresent arr r = [] then None else Some (removeIfPresent arr r))"

text \<open>
  Modelled from the spec: \<open>traverse\<close> "visits each structural slot in the fixed order"
  signatures, parameters, type parameters, index signatures, type literal, nested children
  (the get and set signatures after the index signatures, the documents after the
  children), "passing a tag identifying which slot is being visited". The traversal of a
  type parameter is in the sources and visits nothing.
\<close>

definition slotList :: "ReflectionId list option \<Rightarrow> ReflectionId list" where
  "slotList slot = (case slot of None \<Rightarrow> [] | Some arr \<Rightarrow> arr)"

definition traverse :: "Reflection \<Rightarrow> (ReflectionId \<times> TraverseProperty) list" where
  "traverse p =
     (if variant p = TypeParam then []
      else map (\<lambda>c. (c, Signatures)) (slotList (signatures p))
         @ map (\<lambda>c. (c, Parameters)) (slotList (parameters p))
         @ map (\<lambda>c. (c, TypeParameter)) (slotList (typeParameters p))
         @ map (\<lambda>c. (c, IndexSignature)) (slotList (indexSignatures p))
         @ (case getSignature p of None \<Rightarrow> [] | Some c \<Rightarrow> [(c, GetSignature)])
         @ (case setSignature p of None \<Rightarrow> [] | Some c \<Rightarrow> [(c, SetSignature)])
         @ (case rtype p of Some (ReflectionType c) \<Rightarrow> [(c, TypeLiteral)] | _ \<Rightarrow> [])
         @ map (\<lambda>c. (c, Children)) (slotList (children p))
         @ map (\<lambda>c. (c, Documents)) (slotList (documents p)))"

text \<open>
  Modelled from the spec: \<open>ContainerReflection.addChild\<close> and \<open>removeChild\<close> are not among the
  sources; a document goes to the documents, any other child to the children.
\<close>

definition addChild :: "Reflection \<Rightarrow> ReflectionId \<Rightarrow> Reflection \<Rightarrow> Reflection" where
  "addChild p childId child =
     (if variant child = Document
      then p\<lparr> documents := Some (slotList (documents p) @ [childId]) \<rparr>
      else p\<lparr> children := Some (slotList (children p) @ [childId]) \<rparr>)"

text \<open>The call \<open>parent.addChild(child)\<close> on two objects of a store.\<close>

definition attachChild :: "ProjectReflection \<Rightarrow> ReflectionId \<Rightarrow> ReflectionId \<Rightarrow> ProjectReflection" where
  "attachChild st p c =
     (case objs st p of
        None \<Rightarrow> st
      | Some po \<Rightarrow>
          (case objs st c of
             None \<Rightarrow> st
           | Some co \<Rightarrow> st\<lparr> objs := (objs st)(p \<mapsto> addChild po c co) \<rparr>))"

definition removeChild :: "Reflection \<Rightarrow> ReflectionId \<Rightarrow> Reflection" where
  "removeChild p r =
     p\<lparr> children := removeFromSlot (children p) r, documents := removeFromSlot (documents p) r \<rparr>"

text \<open>
  The callback that \<open>removeReflection\<close> passes to \<open>parent.traverse\<close>, applied to the first
  visited child that is the removed reflection; the traversal stops there.
\<close>

definition detachSlot :: "Reflection \<Rightarrow> ReflectionId \<Rightarrow> TraverseProperty \<Rightarrow> Reflection" where
  "detachSlot p r property =
     (case property of
        Children \<Rightarrow> removeChild p r
      | Documents \<Rightarrow> removeChild p r
      | GetSignature \<Rightarrow> p\<lparr> getSignature := None \<rparr>
      | IndexSignature \<Rightarrow> p\<lparr> indexSignatures := removeFromSlot (indexSignatures p) r \<rparr>
      | Parameters \<Rightarrow> p\<lparr> parameters := removeFromSlot (parameters p) r \<rparr>
      | SetSignature \<Rightarrow> p\<lparr> setSignature := None \<rparr>
      | Signatures \<Rightarrow> p\<lparr> signatures := removeFromSlot (signatures p) r \<rparr>
      | TypeLiteral \<Rightarrow> p\<lparr> rtype := Some (IntrinsicType ''Object'') \<rparr>
      | TypeParameter \<Rightarrow> p\<lparr> typeParameters := removeFromSlot (typeParameters p) r \<rparr>)"

definition detachFromParent :: "ProjectReflection \<Rightarrow> ReflectionId \<Rightarrow> ProjectReflection" where
  "detachFromParent st r =
     (case objs st r of
        None \<Rightarrow> st
      | Some reflection \<Rightarrow>
          (case parent reflection of
             None \<Rightarrow> st
           | Some pid \<Rightarrow>
               (case objs st pid of
                  None \<Rightarrow> st
                | Some p \<Rightarrow>
                    (case find (\<lambda>(child, property). child = r) (traverse p) of
                       None \<Rightarrow> st
                     | Some (child, property) \<Rightarrow>
                         st\<lparr> objs := (objs st)(pid \<mapsto> detachSlot p r property) \<rparr>))))"

text \<open>
  The end of \<open>_removeReflection\<close>: the symbol index is cleaned, with a tombstone when the
  symbol maps to nothing any more, and the id leaves both tables.
\<close>

definition unregisterSymbol :: "ProjectReflection \<Rightarrow> ReflectionId \<Rightarrow> ProjectReflection" where
  "unregisterSymbol st r =
     (let st1 =
        (case reflectionIdToSymbolIdMap st r of
           None \<Rightarrow> st
         | Some symbolId \<Rightarrow>
             (case symbolToReflectionIdMap st symbolId of
                None \<Rightarrow> st
              | Some (OneId saved) \<Rightarrow>
                  if saved = r
                  then st\<lparr> symbolToReflectionIdMap := (symbolToReflectionIdMap st)(symbolId := None),
                           removedSymbolIds := insert symbolId (removedSymbolIds st) \<rparr>
                  else st
              | Some (ManyIds saved) \<Rightarrow>
                  (let st' = st\<lparr> symbolToReflectionIdMap :=
                                   (symbolToReflectionIdMap st)
                                     (symbolId \<mapsto> ManyIds (removeIfPresent saved r)) \<rparr>
                   in if removeIfPresent saved r = []
                      then st'\<lparr> removedSymbolIds := insert symbolId (removedSymbolIds st') \<rparr>
                      else st')))
      in st1\<lparr> reflectionIdToSymbolIdMap := (reflectionIdToSymbolIdMap st1)(r := None),
              reflections := deleteKey r (reflections st1) \<rparr>)"

text \<open>
  \<open>removeReflection\<close> and \<open>_removeReflection\<close> call each other through the reference graph
  and the children index, and nothing in the code bounds the depth: a reflection that is
  its own parent makes \<open>_removeReflection\<close> call itself on the same argument for ever. The
  first argument is fuel, one unit for each nested call; \<open>None\<close> is a run that needs more.
  The two loops run over the arrays as they are when the loop starts; no removal changes
  them.
\<close>

fun removeReflection :: "nat \<Rightarrow> ProjectReflection \<Rightarrow> ReflectionId \<Rightarrow> ProjectReflection option"
  and removeReflection_inner ::
    "nat \<Rightarrow> ProjectReflection \<Rightarrow> ReflectionId \<Rightarrow> ProjectReflection option"
  and removeReferrers ::
    "nat \<Rightarrow> ProjectReflection \<Rightarrow> ReflectionId list \<Rightarrow> ProjectReflection option"
  and removeChildren ::
    "nat \<Rightarrow> ProjectReflection \<Rightarrow> ReflectionId \<Rightarrow> ReflectionId list \<Rightarrow> ProjectReflection option"
where
  "removeReflection 0 st r = None"
| "removeReflection (Suc n) st r =
     (case removeReflection_inner n st r of
        None \<Rightarrow> None
      | Some st' \<Rightarrow> Some (detachFromParent st' r))"
| "removeReflection_inner 0 st r = None"
| "removeReflection_inner (Suc n) st r =
     (let st1 = getReferenceGraph (st\<lparr> files := fr_removeReflection (files st) r \<rparr>) in
      case removeReferrers n st1 (referrers st1 r) of
        None \<Rightarrow> None
      | Some st2 \<Rightarrow>
          (let st3 = st2\<lparr> referenceGraph :=
                            map_option (\<lambda>graph. graph(r := None)) (referenceGraph st2) \<rparr> in
           case removeChildren n st3 r (childrenOf st3 r) of
             None \<Rightarrow> None
           | Some st4 \<Rightarrow>
               Some (unregisterSymbol
                       (st4\<lparr> reflectionChildren := (reflectionChildren st4)(r := None) \<rparr>) r)))"
| "removeReferrers n st [] = Some st"
| "removeReferrers n st (i # is) =
     (case getReflectionById st i of
        None \<Rightarrow> removeReferrers n st is
      | Some ref \<Rightarrow>
          (case removeReflection n st i of
             None \<Rightarrow> None
           | Some st' \<Rightarrow> removeReferrers n st' is))"
| "removeChildren n st r [] = Some st"
| "removeChildren n st r (c # cs) =
     (case getReflectionById st c of
        None \<Rightarrow> removeChildren n st r cs
      | Some child \<Rightarrow>
          if parent child = Some r
          then (case removeReflection_inner n st c of
                  None \<Rightarrow> None
                | Some st' \<Rightarrow> removeChildren n st' r cs)
          else removeChildren n st r cs)"

text \<open>
  The loop of \<open>mergeReflections\<close> over the old children: a child that is still in the table
  and still has \<open>source\<close> as its parent is given the new parent, pushed on the new parent's
  list of the index and added to the new parent's children.
\<close>

fun moveChildren ::
  "ProjectReflection \<Rightarrow> ReflectionId \<Rightarrow> ReflectionId \<Rightarrow> ReflectionId list \<Rightarrow> ProjectReflection" where
  "moveChildren st source tgt [] = st"
| "moveChildren st source tgt (childId # rest) =
     (case getReflectionById st childId of
        None \<Rightarrow> moveChildren st source tgt rest
      | Some childRefl \<Rightarrow>
          if parent childRefl = Some source
          then
            (let moved = childRefl\<lparr> parent := Some tgt \<rparr>;
                 st1 = st\<lparr> objs := (objs st)(childId \<mapsto> moved),
                           reflectionChildren :=
                             (reflectionChildren st)(tgt \<mapsto> childrenOf st tgt @ [childId]) \<rparr>;
                 st2 = (case objs st1 tgt of
                          None \<Rightarrow> st1
                        | Some t \<Rightarrow> st1\<lparr> objs := (objs st1)(tgt \<mapsto> addChild t childId moved) \<rparr>)
             in moveChildren st2 source tgt rest)
          else moveChildren st source tgt rest)"

text \<open>
  \<open>mergeReflections(source, target)\<close>, in its phases. First the cached graph is dropped,
  the old children are read, \<open>reflectionChildren.get(target.id)\<close> creates the entry of the
  target, the loop moves the children and the entry of the source is deleted.
\<close>

definition mergeMove :: "ProjectReflection \<Rightarrow> ReflectionId \<Rightarrow> ReflectionId \<Rightarrow> ProjectReflection" where
  "mergeMove st source tgt =
     (let st1 = st\<lparr> referenceGraph := None \<rparr>;
          oldChildrenIds = childrenOf st1 source;
          st2 = st1\<lparr> reflectionChildren := (reflectionChildren st1)(tgt \<mapsto> childrenOf st1 tgt) \<rparr>;
          st3 = moveChildren st2 source tgt oldChildrenIds
      in st3\<lparr> reflectionChildren := (reflectionChildren st3)(source := None) \<rparr>)"

text \<open>
  When source and target are the same reflection the loop pushes on the array it runs
  over, and with a child to move it never ends.
\<close>

definition mergeLoopsForever :: "ProjectReflection \<Rightarrow> ReflectionId \<Rightarrow> ReflectionId \<Rightarrow> bool" where
  "mergeLoopsForever st source tgt \<longleftrightarrow>
     source = tgt \<and>
     (\<exists>c \<in> set (childrenOf st source).
        case getReflectionById st c of None \<Rightarrow> False | Some ch \<Rightarrow> parent ch = Some source)"

text \<open>\<open>delete target.groups; delete target.categories\<close>.\<close>

definition clearGroupings :: "ProjectReflection \<Rightarrow> ReflectionId \<Rightarrow> ProjectReflection" where
  "clearGroupings st tgt =
     (case objs st tgt of
        None \<Rightarrow> st
      | Some t \<Rightarrow> st\<lparr> objs := (objs st)(tgt \<mapsto> t\<lparr> groups := None, categories := None \<rparr>) \<rparr>)"

text \<open>
  The whole of \<open>mergeReflections\<close>: \<open>None\<close> is a run that never ends, or a removal that
  needs more fuel.
\<close>

definition mergeReflections ::
  "nat \<Rightarrow> ProjectReflection \<Rightarrow> ReflectionId \<Rightarrow> ReflectionId \<Rightarrow> ProjectReflection option" where
  "mergeReflections fuel st source tgt =
     (if mergeLoopsForever st source tgt then None
      else case removeReflection fuel (mergeMove st source tgt) source of
             None \<Rightarrow> None
           | Some st' \<Rightarrow> Some (clearGroupings st' tgt))"

section \<open>Sequences of store operations and the children index\<close>

text \<open>The parent of the object with a given id, when there is such an object and it has one.\<close>

definition parentOf :: "ProjectReflection \<Rightarrow> ReflectionId \<Rightarrow> ReflectionId option" where
  "parentOf st c = (case objs st c of None \<Rightarrow> None | Some obj \<Rightarrow> parent obj)"

text \<open>
  The children index agrees with the parent links: for a reflection \<open>c\<close> of the id table
  and any \<open>p\<close>, \<open>c\<close> is listed under \<open>p\<close> exactly when the parent of \<open>c\<close> is \<open>p\<close>.
\<close>

definition childrenIndexConsistent :: "ProjectReflection \<Rightarrow> bool" where
  "childrenIndexConsistent st \<longleftrightarrow>
     (\<forall>c \<in> set (reflections st). \<forall>p. (c \<in> set (childrenOf st p)) = (parentOf st c = Some p))"

text \<open>
  What the operations keep true, and \<open>childrenIndexConsistent\<close> follows from: the table
  holds objects only; an id listed under \<open>p\<close> is an object whose parent is \<open>p\<close>, whether it
  is still in the table or not; a reflection of the table is listed under its parent.
\<close>

definition storeInvariant :: "ProjectReflection \<Rightarrow> bool" where
  "storeInvariant st \<longleftrightarrow>
     (\<forall>c \<in> set (reflections st). c \<in> dom (objs st)) \<and>
     (\<forall>p. \<forall>c \<in> set (childrenOf st p). c \<in> dom (objs st) \<and> parentOf st c = Some p) \<and>
     (\<forall>c \<in> set (reflections st). \<forall>p. parentOf st c = Some p \<longrightarrow> c \<in> set (childrenOf st p))"

text \<open>
  What a removal does to the table and the index: the objects and their parents stay, the
  table loses ids, and a list of the index is either left alone or deleted, the latter
  only when every reflection listed there with that parent has left the table.
\<close>

definition shrinks :: "ProjectReflection \<Rightarrow> ProjectReflection \<Rightarrow> bool" where
  "shrinks st st' \<longleftrightarrow>
     dom (objs st') = dom (objs st) \<and>
     (\<forall>c. parentOf st' c = parentOf st c) \<and>
     set (reflections st') \<subseteq> set (reflections st) \<and>
     (\<forall>p. childrenOf st' p = childrenOf st p \<or>
          (childrenOf st' p = [] \<and>
           (\<forall>c \<in> set (childrenOf st p). parentOf st c = Some p \<longrightarrow> c \<notin> set (reflections st'))))"

text \<open>
  The state of the loop of \<open>mergeReflections\<close>: as \<open>storeInvariant\<close>, but the list of the
  source may name children that have been moved, and every reflection of the table whose
  parent is still the source is among the ids the loop has yet to visit.
\<close>

definition mergeInvariant :: "ProjectReflection \<Rightarrow> ReflectionId \<Rightarrow> ReflectionId list \<Rightarrow> bool" where
  "mergeInvariant st source rest \<longleftrightarrow>
     (\<forall>c \<in> set (reflections st). c \<in> dom (objs st)) \<and>
     (\<forall>p. \<forall>c \<in> set (childrenOf st p). c \<in> dom (objs st) \<and> (p \<noteq> source \<longrightarrow> parentOf st c = Some p)) \<and>
     (\<forall>c \<in> set (reflections st). \<forall>p. parentOf st c = Some p \<longrightarrow>
          (if p = source then c \<in> set rest else c \<in> set (childrenOf st p)))"

text \<open>
  The operations a caller applies to a store: creating a reflection (a constructor call,
  which takes an id no object has and a parent that is an object), adding a child to the
  children of its parent, registering, removing and merging reflections. An operation on
  something that is not an object cannot be written in the program and has no result here.
\<close>

datatype StoreOp =
    NewReflection ReflectionId ReflectionVariant string ReflectionKind "ReflectionId option"
  | NewReferenceReflection ReflectionId string ReflectionId "ReflectionId option"
  | AddChild ReflectionId ReflectionId
  | RegisterReflection ReflectionId "ReflectionSymbolId option" "NormalizedPath option"
  | RemoveReflection ReflectionId
  | MergeReflections ReflectionId ReflectionId

definition isObject :: "ProjectReflection \<Rightarrow> ReflectionId \<Rightarrow> bool" where
  "isObject st i \<longleftrightarrow> objs st i \<noteq> None"

definition isObjectOrUndefined :: "ProjectReflection \<Rightarrow> ReflectionId option \<Rightarrow> bool" where
  "isObjectOrUndefined st par = (case par of None \<Rightarrow> True | Some p \<Rightarrow> isObject st p)"

fun applyOp :: "nat \<Rightarrow> ProjectReflection \<Rightarrow> StoreOp \<Rightarrow> ProjectReflection option" where
  "applyOp fuel st (NewReflection i v nm k par) =
     (if \<not> isObject st i \<and> isObjectOrUndefined st par
      then Some (newReflection st i v nm k par) else None)"
| "applyOp fuel st (NewReferenceReflection i nm tgt par) =
     (if \<not> isObject st i \<and> isObject st tgt \<and> isObjectOrUndefined st par
      then Some (newReferenceReflection st i nm tgt par) else None)"
| "applyOp fuel st (AddChild p c) =
     (if isObject st p \<and> isObject st c then Some (attachChild st p c) else None)"
| "applyOp fuel st (RegisterReflection r symbolId filePath) =
     (if isObject st r then Some (registerReflection st r symbolId filePath) else None)"
| "applyOp fuel st (RemoveReflection r) =
     (if isObject st r then removeReflection fuel st r else None)"
| "applyOp fuel st (MergeReflections source tgt) =
     (if isObject st source \<and> isObject st tgt then mergeReflections fuel st source tgt else None)"

fun runOps :: "nat \<Rightarrow> ProjectReflection \<Rightarrow> StoreOp list \<Rightarrow> ProjectReflection option" where
  "runOps fuel st [] = Some st"
| "runOps fuel st (op # ops) =
     (case applyOp fuel st op of None \<Rightarrow> None | Some st' \<Rightarrow> runOps fuel st' ops)"

text \<open>
  A run of operations: two modules \<open>A\<close> and \<open>C\<close> under the root, \<open>B\<close> under \<open>A\<close>, a reference to
  \<open>B\<close>; then \<open>A\<close> is merged into \<open>C\<close> and the reference is removed.
\<close>

definition exampleOps :: "StoreOp list" where
  "exampleOps =
     [NewReflection 2 Declaration ''A'' KindModule (Some 1), RegisterReflection 2 None None,
      AddChild 1 2,
      NewReflection 3 Declaration ''B'' (KindOther 0) (Some 2), RegisterReflection 3 None None,
      AddChild 2 3,
      NewReflection 4 Declaration ''C'' KindModule (Some 1), RegisterReflection 4 None None,
      AddChild 1 4,
      NewReferenceReflection 5 ''b'' 3 (Some 1), RegisterReflection 5 None None,
      AddChild 1 5,
      MergeReflections 2 4,
      RemoveReflection 5]"

section \<open>Cascading removal\<close>

text \<open>\<open>ref\<close> is a reference reflection whose target is \<open>t\<close>.\<close>

definition refersTo :: "ProjectReflection \<Rightarrow> ReflectionId \<Rightarrow> ReflectionId \<Rightarrow> bool" where
  "refersTo st ref t \<longleftrightarrow>
     (case objs st ref of None \<Rightarrow> False | Some obj \<Rightarrow> variant obj = Reference \<and> target obj = Some t)"

text \<open>
  A cached reference graph is complete when, for reflections \<open>t\<close> and \<open>ref\<close> of the id table
  with \<open>ref\<close> referring to \<open>t\<close>, the graph lists \<open>ref\<close> under \<open>t\<close>.
\<close>

definition graphComplete :: "ProjectReflection \<Rightarrow> bool" where
  "graphComplete st \<longleftrightarrow>
     (case referenceGraph st of
        None \<Rightarrow> True
      | Some graph \<Rightarrow>
          (\<forall>t \<in> set (reflections st). \<forall>ref \<in> set (reflections st).
              refersTo st ref t \<longrightarrow> ref \<in> set (referrers st t)))"

text \<open>
  What a removal that starts with a cached graph does to the graph, the table and the
  index: a list of the graph is left alone, or it is gone and so are the reflections it
  named; a reflection that left the table took its listed referrers with it; an entry of
  the children index is left alone, or it is gone and so is the reflection it belonged to.
\<close>

definition cascades :: "ProjectReflection \<Rightarrow> ProjectReflection \<Rightarrow> bool" where
  "cascades st st' \<longleftrightarrow>
     referenceGraph st' \<noteq> None \<and>
     (\<forall>t. referrers st' t = referrers st t \<or>
          (referrers st' t = [] \<and> (\<forall>x \<in> set (referrers st t). x \<notin> set (reflections st')))) \<and>
     (\<forall>t \<in> set (reflections st). t \<notin> set (reflections st') \<longrightarrow>
          (\<forall>x \<in> set (referrers st t). x \<notin> set (reflections st'))) \<and>
     (\<forall>p. reflectionChildren st' p = reflectionChildren st p \<or>
          (reflectionChildren st' p = None \<and> p \<notin> set (reflections st'))) \<and>
     set (reflections st') \<subseteq> set (reflections st) \<and>
     (\<forall>ref t. refersTo st' ref t = refersTo st ref t) \<and>
     (\<forall>c \<in> set (reflections st'). c \<in> dom (objs st'))"

text \<open>
  The store of the scenario: the root \<open>R\<close> (id 1) with the child \<open>A\<close> (id 2), which has the
  child \<open>B\<close> (id 3); a reference to \<open>B\<close> (id 4) and one to \<open>A\<close> (id 5); a declaration \<open>C\<close>
  (id 6) and a reference to it (id 7), all under \<open>R\<close>. Then \<open>removeReflection(A)\<close>.
\<close>

definition removalOps :: "StoreOp list" where
  "removalOps =
     [NewReflection 2 Declaration ''A'' KindModule (Some 1), RegisterReflection 2 None None,
      AddChild 1 2,
      NewReflection 3 Declaration ''B'' (KindOther 0) (Some 2), RegisterReflection 3 None None,
      AddChild 2 3,
      NewReferenceReflection 4 ''b'' 3 (Some 1), RegisterReflection 4 None None, AddChild 1 4,
      NewReferenceReflection 5 ''a'' 2 (Some 1), RegisterReflection 5 None None, AddChild 1 5,
      NewReflection 6 Declaration ''C'' (KindOther 0) (Some 1), RegisterReflection 6 None None,
      AddChild 1 6,
      NewReferenceReflection 7 ''c'' 6 (Some 1), RegisterReflection 7 None None, AddChild 1 7]"

definition removalScenario :: ProjectReflection where
  "removalScenario = the (runOps 0 (newProjectReflection 1 ''R'' newFileRegistry) removalOps)"

definition afterRemoval :: ProjectReflection where
  "afterRemoval = the (removeReflection 5 removalScenario 2)"

section \<open>Scenarios for the symbol index\<close>

text \<open>
  A project (id 1) and two declarations (ids 2 and 3) under its root, created and not yet
  registered; then both registered for the symbol \<open>sym\<close>.
\<close>

definition twoDeclarations :: ProjectReflection where
  "twoDeclarations =
     newReflection
       (newReflection (newProjectReflection 1 ''R'' newFileRegistry)
          2 Declaration ''f'' (KindOther 0) (Some 1))
       3 Declaration ''f'' (KindOther 0) (Some 1)"

definition symbolScenario :: ProjectReflection where
  "symbolScenario =
     registerReflection (registerReflection twoDeclarations 2 (Some ''sym'') None)
       3 (Some ''sym'') None"

text \<open>
  A project whose id is 0, registered for a symbol \<open>s\<close>, and a declaration (id 1) under it
  that is registered for the same symbol afterwards.
\<close>

definition zeroIdScenario :: "ReflectionSymbolId \<Rightarrow> ProjectReflection" where
  "zeroIdScenario s =
     registerReflection
       (newReflection
          (registerReflection (newProjectReflection 0 ''R'' newFileRegistry) 0 (Some s) None)
          1 Declaration ''d'' (KindOther 0) (Some 0))
       1 (Some s) None"

section \<open>Deserializer (serialization/deserializer.ts)\<close>

text \<open>
  A \<open>throw\<close> is a value: the error, with the state as the code left it. \<open>assert\<close> of the
  utilities throws \<open>new Error(message)\<close> when its argument is false;
  \<open>Object.entries(undefined)\<close> throws a \<open>TypeError\<close>.
\<close>

datatype DeserializeError = Error string | TypeError string

text \<open>
  A logged warning is the translation key with its argument; \<open>i18n\<close> is not among the
  sources.
\<close>

datatype TranslatedString = serialized_project_referenced_0_not_part_of_project string

datatype LogEntry = Warn TranslatedString

text \<open>
  The wire objects \<open>JSONOutput.FileRegistry\<close> and \<open>JSONOutput.ProjectReflection\<close>. A
  \<open>Record\<close> with numeric keys is the list of its entries in the order \<open>Object.entries\<close>
  gives them. \<open>wire_rest\<close> holds the fields that only the parts of the code outside the
  sources read (children, comment, readme and so on).
\<close>

record JSONFileRegistry =
  entries :: "(FileId \<times> string) list"
  wire_reflections :: "(FileId \<times> ReflectionId) list"

record 'x JSONProjectReflection =
  schemaVersion :: string
  wire_id :: ReflectionId
  wire_name :: string
  wire_packageName :: "string option"
  wire_packageVersion :: "string option"
  symbolIdMap :: "(ReflectionId \<times> ReflectionSymbolId) list option"
  wire_files :: "JSONFileRegistry option"
  wire_rest :: 'x

text \<open>
  \<open>JSON_SCHEMA_VERSION\<close> of ProjectReflection.ts, which a test of the repository asserts
  equal to \<open>JSONOutput.SCHEMA_VERSION\<close>, and the list the deserializer accepts.
\<close>

definition JSON_SCHEMA_VERSION :: string where
  "JSON_SCHEMA_VERSION = ''2.0''"

definition supportedSchemaVersions :: "string list" where
  "supportedSchemaVersions = [JSON_SCHEMA_VERSION]"

text \<open>\<open>supportedSchemaVersions.join(", ")\<close>.\<close>

fun joinWith :: "string \<Rightarrow> string list \<Rightarrow> string" where
  "joinWith sep [] = []"
| "joinWith sep [x] = x"
| "joinWith sep (x # y # rest) = x @ sep @ joinWith sep (y # rest)"

definition unsupportedVersionMessage :: "string \<Rightarrow> string" where
  "unsupportedVersionMessage v =
     ''Attempted to deserialize version '' @ [CHR 0x22] @ v @ [CHR 0x22] @
     '' JSON, which is not supported. Supported versions: '' @
     joinWith '', '' supportedSchemaVersions"

text \<open>
  The fields of the class \<open>Deserializer\<close> other than the queue \<open>deferred\<close> and the list of
  components, with the process-wide counter that gives a new reflection its id (Modelled
  from the spec: the counter is in \<open>Reflection.ts\<close>, which is not among the sources).
  \<open>project\<close> is a reference to the project being revived.
\<close>

record DeserializerState =
  activeReflection :: "ReflectionId list"
  projectRoot :: "NormalizedPath option"
  oldIdToNewId :: "ReflectionId \<rightharpoonup> ReflectionId"
  oldFileIdToNewFileId :: "FileId \<rightharpoonup> FileId"
  project :: "ReflectionId option"
  logger :: "LogEntry list"
  REFLECTION_ID :: ReflectionId

text \<open>
  A deferred callback \<open>(project: ProjectReflection) => void\<close>. It reads and writes the
  project it is given and the deserializer it has captured, and it may call
  \<open>Deserializer.defer\<close>: it answers the new project and deserializer fields with the
  callbacks it has queued, in the order it queued them, or throws, leaving the same.
\<close>

datatype Callback =
  Callback "ProjectReflection \<Rightarrow> DeserializerState \<Rightarrow>
              (DeserializeError \<times> ProjectReflection \<times> DeserializerState \<times> Callback list) +
              (ProjectReflection \<times> DeserializerState \<times> Callback list)"

record Deserializer =
  dstate :: DeserializerState
  deferred :: "Callback list"

text \<open>
  The project under revival with the deserializer, and the result of a step: thrown, with
  the project if there is one, or returned.
\<close>

type_synonym World = "ProjectReflection \<times> Deserializer"

type_synonym 'a Result = "(DeserializeError \<times> ProjectReflection option \<times> Deserializer) + 'a"

text \<open>The constructor's field initialisers; the counter is where the process has it.\<close>

definition newDeserializer :: "ReflectionId \<Rightarrow> Deserializer" where
  "newDeserializer nextReflectionId =
     \<lparr> dstate = \<lparr> activeReflection = [], projectRoot = None, oldIdToNewId = Map.empty,
                  oldFileIdToNewFileId = Map.empty, project = None, logger = [],
                  REFLECTION_ID = nextReflectionId \<rparr>,
       deferred = [] \<rparr>"

text \<open>\<open>defer(cb)\<close>: \<open>this.deferred.push(cb)\<close>.\<close>

definition de_defer :: "Deserializer \<Rightarrow> Callback \<Rightarrow> Deserializer" where
  "de_defer de cb = de\<lparr> deferred := deferred de @ [cb] \<rparr>"

text \<open>The call \<open>def(project)\<close> of one deferred callback.\<close>

fun runCallback :: "Callback \<Rightarrow> World \<Rightarrow> World Result" where
  "runCallback (Callback f) (p, de) =
     (case f p (dstate de) of
        Inl (e, p', s', queued) \<Rightarrow>
          Inl (e, Some p', de\<lparr> dstate := s', deferred := deferred de @ queued \<rparr>)
      | Inr (p', s', queued) \<Rightarrow>
          Inr (p', de\<lparr> dstate := s', deferred := deferred de @ queued \<rparr>))"

text \<open>\<open>for (const def of deferred) { def(project); }\<close> over the queue taken before the loop.\<close>

fun runDeferred :: "Callback list \<Rightarrow> World \<Rightarrow> World Result" where
  "runDeferred [] w = Inr w"
| "runDeferred (cb # rest) w =
     (case runCallback cb w of Inl thrown \<Rightarrow> Inl thrown | Inr w' \<Rightarrow> runDeferred rest w')"

text \<open>
  The block that follows the first pass in \<open>reviveProject\<close> and, word for word, in each turn
  of the loop of \<open>reviveProjects\<close>: the queue is taken and emptied, the callbacks are run, and
  the two assertions are checked.
\<close>

definition runDeferredPass :: "World \<Rightarrow> World Result" where
  "runDeferredPass w =
     (case w of (p, de) \<Rightarrow>
        (case runDeferred (deferred de) (p, de\<lparr> deferred := [] \<rparr>) of
           Inl thrown \<Rightarrow> Inl thrown
         | Inr (p', de') \<Rightarrow>
             if deferred de' \<noteq> []
             then Inl (Error ''Work may not be double deferred when deserializing.'',
                       Some p', de')
             else if activeReflection (dstate de') \<noteq> []
             then Inl (Error ''Imbalanced reflection deserialization'', Some p', de')
             else Inr (p', de')))"

text \<open>
  The parts of the repository that the revival calls and that are not among the sources,
  taken as parameters: \<open>ContainerReflection.fromObject\<close> (the \<open>super.fromObject\<close> of the
  project), \<open>DeclarationReflection.fromObject\<close> (the receiver in \<open>reviveProjects\<close>),
  \<open>Comment.deserializeDisplayParts\<close> on the readme, \<open>NormalizedPathUtils.resolve\<close>, and the
  components registered with \<open>addDeserializer\<close>, in priority order, each with its
  \<open>supports\<close> and \<open>fromObject\<close>. Each may read and write the project and the deserializer,
  queue callbacks and throw.
\<close>

record 'x AbsentCode =
  containerFromObject :: "ReflectionId \<Rightarrow> 'x JSONProjectReflection \<Rightarrow> World \<Rightarrow> World Result"
  declarationFromObject :: "ReflectionId \<Rightarrow> 'x JSONProjectReflection \<Rightarrow> World \<Rightarrow> World Result"
  readmeFromObject :: "ReflectionId \<Rightarrow> 'x JSONProjectReflection \<Rightarrow> World \<Rightarrow> World Result"
  pathResolve :: "NormalizedPath option \<Rightarrow> string \<Rightarrow> NormalizedPath"
  deserializers ::
    "((ReflectionId \<Rightarrow> 'x JSONProjectReflection \<Rightarrow> World \<Rightarrow> bool) \<times>
      (ReflectionId \<Rightarrow> 'x JSONProjectReflection \<Rightarrow> World \<Rightarrow> World Result)) list"

text \<open>
  The first loop of \<open>FileRegistry.fromObject\<close>: every entry is resolved against the project
  root and registered, and the old file id is mapped to the new one.
\<close>

fun registerEntries ::
  "(NormalizedPath option \<Rightarrow> string \<Rightarrow> NormalizedPath) \<Rightarrow> (FileId \<times> string) list \<Rightarrow> World \<Rightarrow> World" where
  "registerEntries resolveFn [] w = w"
| "registerEntries resolveFn ((fileId, path) # rest) (p, de) =
     (let absolute = resolveFn (projectRoot (dstate de)) path;
          ((tgt, anchor), registry) = registerAbsolute (files p) absolute
      in registerEntries resolveFn rest
           (p\<lparr> files := registry \<rparr>,
            de\<lparr> dstate := (dstate de)\<lparr> oldFileIdToNewFileId :=
                               (oldFileIdToNewFileId (dstate de))(fileId \<mapsto> tgt) \<rparr> \<rparr>))"

text \<open>
  The callback that \<open>FileRegistry.fromObject\<close> defers. \<open>de.oldIdToNewId[reflId]!\<close> may be
  \<open>undefined\<close>, for which \<open>getReflectionById\<close> answers \<open>undefined\<close>. A file id with no new id
  makes the code set the key \<open>undefined\<close> of the map, which is no file id: the model leaves
  the map as it is.
\<close>

fun linkFiles ::
  "(FileId \<times> ReflectionId) list \<Rightarrow> ProjectReflection \<Rightarrow> DeserializerState \<Rightarrow> ProjectReflection" where
  "linkFiles [] p s = p"
| "linkFiles ((fileId, reflId) # rest) p s =
     (case oldIdToNewId s reflId of
        None \<Rightarrow> linkFiles rest p s
      | Some newId \<Rightarrow>
          (case getReflectionById p newId of
             None \<Rightarrow> linkFiles rest p s
           | Some reflection \<Rightarrow>
               (case oldFileIdToNewFileId s fileId of
                  None \<Rightarrow> linkFiles rest p s
                | Some newFileId \<Rightarrow>
                    linkFiles rest
                      (p\<lparr> files := (files p)\<lparr> mediaToReflection :=
                                       (mediaToReflection (files p))(newFileId \<mapsto> newId) \<rparr> \<rparr>) s)))"

definition linkFilesCallback :: "(FileId \<times> ReflectionId) list \<Rightarrow> Callback" where
  "linkFilesCallback refls = Callback (\<lambda>p s. Inr (linkFiles refls p s, s, []))"

text \<open>
  \<open>FileRegistry.fromObject(de, obj)\<close>, called with \<open>obj.files || {}\<close>: for a wire project
  with no \<open>files\<close> the argument is \<open>{}\<close> and \<open>Object.entries(obj.entries)\<close> throws.
\<close>

definition files_fromObject ::
  "'x AbsentCode \<Rightarrow> JSONFileRegistry option \<Rightarrow> World \<Rightarrow> World Result" where
  "files_fromObject A obj w =
     (case obj of
        None \<Rightarrow> Inl (TypeError ''Cannot convert undefined or null to object'', Some (fst w), snd w)
      | Some registry \<Rightarrow>
          (case registerEntries (pathResolve A) (entries registry) w of
             (p, de) \<Rightarrow> Inr (p, de_defer de (linkFilesCallback (wire_reflections registry)))))"

text \<open>
  \<open>this.getReflectionById(de.oldIdToNewId[+id as ReflectionId] ?? -1)\<close>: the reflection
  that the old id names now, given by its id; \<open>-1\<close> is an id no reflection has, for which
  \<open>getReflectionById\<close> answers \<open>undefined\<close>.
\<close>

definition lookupRevived ::
  "ProjectReflection \<Rightarrow> DeserializerState \<Rightarrow> ReflectionId \<Rightarrow> ReflectionId option" where
  "lookupRevived p s i =
     (case oldIdToNewId s i of
        None \<Rightarrow> None
      | Some newId \<Rightarrow>
          (case getReflectionById p newId of None \<Rightarrow> None | Some reflection \<Rightarrow> Some newId))"

text \<open>The warning of the \<open>else\<close> branch; it names the key of the entry.\<close>

definition warningFor :: "ReflectionId \<times> ReflectionSymbolId \<Rightarrow> LogEntry" where
  "warningFor e = Warn (serialized_project_referenced_0_not_part_of_project (showNat (fst e)))"

text \<open>
  The callback that \<open>ProjectReflection.fromObject\<close> defers: the loop over the entries of
  \<open>obj.symbolIdMap || {}\<close>.
\<close>

fun registerSymbolIds ::
  "(ReflectionId \<times> ReflectionSymbolId) list \<Rightarrow> ProjectReflection \<Rightarrow> DeserializerState
     \<Rightarrow> ProjectReflection \<times> DeserializerState" where
  "registerSymbolIds [] p s = (p, s)"
| "registerSymbolIds (e # rest) p s =
     (case lookupRevived p s (fst e) of
        Some newId \<Rightarrow> registerSymbolIds rest (registerSymbolId p newId (snd e)) s
      | None \<Rightarrow> registerSymbolIds rest p (s\<lparr> logger := logger s @ [warningFor e] \<rparr>))"

definition symbolEntries ::
  "(ReflectionId \<times> ReflectionSymbolId) list option \<Rightarrow> (ReflectionId \<times> ReflectionSymbolId) list" where
  "symbolEntries m = (case m of None \<Rightarrow> [] | Some es \<Rightarrow> es)"

definition symbolIdMapCallback :: "(ReflectionId \<times> ReflectionSymbolId) list option \<Rightarrow> Callback" where
  "symbolIdMapCallback m =
     Callback (\<lambda>p s. case registerSymbolIds (symbolEntries m) p s of (p', s') \<Rightarrow> Inr (p', s', []))"

text \<open>
  \<open>ProjectReflection.fromObject(de, obj)\<close>. The readme is revived by code that is not among
  the sources.
\<close>

definition project_fromObject ::
  "'x AbsentCode \<Rightarrow> ReflectionId \<Rightarrow> 'x JSONProjectReflection \<Rightarrow> World \<Rightarrow> World Result" where
  "project_fromObject A this obj w =
     (case containerFromObject A this obj w of
        Inl thrown \<Rightarrow> Inl thrown
      | Inr (p1, de1) \<Rightarrow>
          (case readmeFromObject A this obj
                  (p1\<lparr> packageName := wire_packageName obj,
                       packageVersion := wire_packageVersion obj \<rparr>, de1) of
             Inl thrown \<Rightarrow> Inl thrown
           | Inr w2 \<Rightarrow>
               (case files_fromObject A (wire_files obj) w2 of
                  Inl thrown \<Rightarrow> Inl thrown
                | Inr (p3, de3) \<Rightarrow> Inr (p3, de_defer de3 (symbolIdMapCallback (symbolIdMap obj))))))"

text \<open>The loop over \<open>this.deserializers\<close> in \<open>Deserializer.fromObject\<close>.\<close>

fun runComponents ::
  "((ReflectionId \<Rightarrow> 'x JSONProjectReflection \<Rightarrow> World \<Rightarrow> bool) \<times>
    (ReflectionId \<Rightarrow> 'x JSONProjectReflection \<Rightarrow> World \<Rightarrow> World Result)) list
   \<Rightarrow> ReflectionId \<Rightarrow> 'x JSONProjectReflection \<Rightarrow> World \<Rightarrow> World Result" where
  "runComponents [] receiver obj w = Inr w"
| "runComponents ((supports, fromObj) # rest) receiver obj w =
     (if supports receiver obj w
      then (case fromObj receiver obj w of
              Inl thrown \<Rightarrow> Inl thrown
            | Inr w' \<Rightarrow> runComponents rest receiver obj w')
      else runComponents rest receiver obj w)"

text \<open>
  \<open>Deserializer.fromObject(receiver, obj)\<close> for a receiver that is a reflection: it is
  pushed on \<open>activeReflection\<close>, its own \<open>fromObject\<close> runs, then the components, and it is
  popped. Nothing pops it when one of these throws.
\<close>

definition deserializer_fromObject ::
  "'x AbsentCode \<Rightarrow> (ReflectionId \<Rightarrow> 'x JSONProjectReflection \<Rightarrow> World \<Rightarrow> World Result)
     \<Rightarrow> ReflectionId \<Rightarrow> 'x JSONProjectReflection \<Rightarrow> World \<Rightarrow> World Result" where
  "deserializer_fromObject A receiverFromObject receiver obj w =
     (case w of (p, de) \<Rightarrow>
        (case receiverFromObject receiver obj
                (p, de\<lparr> dstate := (dstate de)\<lparr> activeReflection :=
                                      activeReflection (dstate de) @ [receiver] \<rparr> \<rparr>) of
           Inl thrown \<Rightarrow> Inl thrown
         | Inr w1 \<Rightarrow>
             (case runComponents (deserializers A) receiver obj w1 of
                Inl thrown \<Rightarrow> Inl thrown
              | Inr (p2, de2) \<Rightarrow>
                  Inr (p2, de2\<lparr> dstate := (dstate de2)\<lparr> activeReflection :=
                                             butlast (activeReflection (dstate de2)) \<rparr> \<rparr>))))"

text \<open>The \<open>options\<close> of \<open>reviveProject\<close> and \<open>reviveProjects\<close>.\<close>

record ReviveOptions =
  opt_projectRoot :: NormalizedPath
  opt_registry :: FileRegistry
  alwaysCreateEntryPointModule :: bool

text \<open>The four assignments that end both functions.\<close>

definition resetDeserializer :: "Deserializer \<Rightarrow> Deserializer" where
  "resetDeserializer de =
     de\<lparr> dstate := (dstate de)\<lparr> project := None, projectRoot := None,
                               oldIdToNewId := Map.empty, oldFileIdToNewFileId := Map.empty \<rparr> \<rparr>"

text \<open>
  The lines of \<open>reviveProject\<close> between the version check and the call of \<open>fromObject\<close>:
  the new project and the four fields of the deserializer. \<open>name || projectObj.name\<close>
  takes the wire name when \<open>name\<close> is empty.
\<close>

definition newProject ::
  "string \<Rightarrow> 'x JSONProjectReflection \<Rightarrow> ReviveOptions \<Rightarrow> Deserializer \<Rightarrow> World" where
  "newProject nm projectObj options de =
     (newProjectReflection (REFLECTION_ID (dstate de))
        (if nm \<noteq> [] then nm else wire_name projectObj) (opt_registry options),
      de\<lparr> dstate := (dstate de)
            \<lparr> REFLECTION_ID := REFLECTION_ID (dstate de) + 1,
              project := Some (REFLECTION_ID (dstate de)),
              projectRoot := Some (opt_projectRoot options),
              oldIdToNewId := [wire_id projectObj \<mapsto> REFLECTION_ID (dstate de)],
              oldFileIdToNewFileId := Map.empty \<rparr> \<rparr>)"

text \<open>
  \<open>reviveProject(name, projectObj, options)\<close>. The version is checked before the project is
  constructed.
\<close>

definition reviveProject ::
  "'x AbsentCode \<Rightarrow> string \<Rightarrow> 'x JSONProjectReflection \<Rightarrow> ReviveOptions \<Rightarrow> Deserializer
     \<Rightarrow> World Result" where
  "reviveProject A nm projectObj options de =
     (if deferred de \<noteq> []
      then Inl (Error ''Deserializer.defer was called when not deserializing'', None, de)
      else if schemaVersion projectObj \<notin> set supportedSchemaVersions
      then Inl (Error (unsupportedVersionMessage (schemaVersion projectObj)), None, de)
      else
        (case deserializer_fromObject A (project_fromObject A) (REFLECTION_ID (dstate de)) projectObj
                (newProject nm projectObj options de) of
           Inl thrown \<Rightarrow> Inl thrown
         | Inr w \<Rightarrow>
             (case runDeferredPass w of
                Inl thrown \<Rightarrow> Inl thrown
              | Inr (p', de') \<Rightarrow> Inr (p', resetDeserializer de'))))"

text \<open>
  The lines of the loop of \<open>reviveProjects\<close> between the version check and the call of
  \<open>fromObject\<close>: a module for the wire project, registered and added to the root, and the
  two maps of the deserializer.
\<close>

definition newProjectModule :: "'x JSONProjectReflection \<Rightarrow> World \<Rightarrow> World" where
  "newProjectModule proj w =
     (case w of (p, de) \<Rightarrow>
        (let m = REFLECTION_ID (dstate de);
             p1 = newReflection p m Declaration (wire_name proj) KindModule (Some (this_id p));
             p2 = registerReflection p1 m None None;
             p3 = attachChild p2 (this_id p) m
         in (p3, de\<lparr> dstate := (dstate de)
                       \<lparr> REFLECTION_ID := m + 1,
                         oldIdToNewId := [wire_id proj \<mapsto> m],
                         oldFileIdToNewFileId := Map.empty \<rparr> \<rparr>)))"

text \<open>
  One turn of the loop of \<open>reviveProjects\<close> followed by the remaining turns: the two checks,
  the module, its revival, the deferred pass.
\<close>

fun reviveEach :: "'x AbsentCode \<Rightarrow> 'x JSONProjectReflection list \<Rightarrow> World \<Rightarrow> World Result" where
  "reviveEach A [] w = Inr w"
| "reviveEach A (proj # rest) (p, de) =
     (if deferred de \<noteq> []
      then Inl (Error ''Deserializer.defer was called when not deserializing'', Some p, de)
      else if schemaVersion proj \<notin> set supportedSchemaVersions
      then Inl (Error (unsupportedVersionMessage (schemaVersion proj)), Some p, de)
      else
        (case deserializer_fromObject A (declarationFromObject A) (REFLECTION_ID (dstate de)) proj
                (newProjectModule proj (p, de)) of
           Inl thrown \<Rightarrow> Inl thrown
         | Inr w \<Rightarrow>
             (case runDeferredPass w of
                Inl thrown \<Rightarrow> Inl thrown
              | Inr w' \<Rightarrow> reviveEach A rest w')))"

text \<open>
  The start of \<open>reviveProjects\<close> when it does not hand over to \<open>reviveProject\<close>: the new
  root, and the two fields of the deserializer that are set before the loop.
\<close>

definition newRoot :: "string \<Rightarrow> ReviveOptions \<Rightarrow> Deserializer \<Rightarrow> World" where
  "newRoot nm options de =
     (newProjectReflection (REFLECTION_ID (dstate de)) nm (opt_registry options),
      de\<lparr> dstate := (dstate de)
            \<lparr> REFLECTION_ID := REFLECTION_ID (dstate de) + 1,
              project := Some (REFLECTION_ID (dstate de)),
              projectRoot := Some (opt_projectRoot options) \<rparr> \<rparr>)"

text \<open>\<open>reviveProjects(name, projects, options)\<close>; \<open>projects[0]\<close> is the head of the list.\<close>

definition reviveProjects ::
  "'x AbsentCode \<Rightarrow> string \<Rightarrow> 'x JSONProjectReflection list \<Rightarrow> ReviveOptions \<Rightarrow> Deserializer
     \<Rightarrow> World Result" where
  "reviveProjects A nm projects options de =
     (if length projects = 1 \<and> \<not> alwaysCreateEntryPointModule options
      then reviveProject A nm (hd projects) options de
      else
        (case reviveEach A projects (newRoot nm options de) of
           Inl thrown \<Rightarrow> Inl thrown
         | Inr (p', de') \<Rightarrow> Inr (p', resetDeserializer de')))"

subsection \<open>What a callback does\<close>

text \<open>
  The function of a callback, that it returns whatever it is given, the project and fields
  it leaves, and the callbacks it queues.
\<close>

fun call ::
  "Callback \<Rightarrow> ProjectReflection \<Rightarrow> DeserializerState \<Rightarrow>
     (DeserializeError \<times> ProjectReflection \<times> DeserializerState \<times> Callback list) +
     (ProjectReflection \<times> DeserializerState \<times> Callback list)" where
  "call (Callback f) = f"

definition neverThrows :: "Callback \<Rightarrow> bool" where
  "neverThrows cb \<longleftrightarrow> (\<forall>p s. \<not> isl (call cb p s))"

definition effect ::
  "Callback \<Rightarrow> ProjectReflection \<times> DeserializerState \<Rightarrow> ProjectReflection \<times> DeserializerState" where
  "effect cb w =
     (case call cb (fst w) (snd w) of
        Inl (e, p', s', queued) \<Rightarrow> (p', s')
      | Inr (p', s', queued) \<Rightarrow> (p', s'))"

definition queuedBy :: "Callback \<Rightarrow> ProjectReflection \<times> DeserializerState \<Rightarrow> Callback list" where
  "queuedBy cb w =
     (case call cb (fst w) (snd w) of
        Inl (e, p', s', queued) \<Rightarrow> queued
      | Inr (p', s', queued) \<Rightarrow> queued)"

text \<open>
  The callbacks that a list of callbacks queues when they are called one after the other,
  each on what the one before it has left.
\<close>

fun newWork :: "Callback list \<Rightarrow> ProjectReflection \<times> DeserializerState \<Rightarrow> Callback list" where
  "newWork [] w = []"
| "newWork (cb # rest) w = queuedBy cb w @ newWork rest (effect cb w)"

subsection \<open>Examples\<close>

text \<open>
  Parts outside the sources that do nothing, for a wire project of the root alone, and a
  path resolution that puts the root before the path.
\<close>

definition plainAbsent :: "unit AbsentCode" where
  "plainAbsent =
     \<lparr> containerFromObject = (\<lambda>this obj w. Inr w),
       declarationFromObject = (\<lambda>this obj w. Inr w),
       readmeFromObject = (\<lambda>this obj w. Inr w),
       pathResolve = (\<lambda>root path. (case root of None \<Rightarrow> [] | Some r \<Rightarrow> r) @ ''/'' @ path),
       deserializers = [] \<rparr>"

definition wireProject :: "string \<Rightarrow> string \<Rightarrow> unit JSONProjectReflection" where
  "wireProject version nm =
     \<lparr> schemaVersion = version, wire_id = 0, wire_name = nm, wire_packageName = None,
       wire_packageVersion = None, symbolIdMap = None,
       wire_files = Some \<lparr> entries = [], wire_reflections = [] \<rparr>, wire_rest = () \<rparr>"

definition plainOptions :: "bool \<Rightarrow> ReviveOptions" where
  "plainOptions wrap =
     \<lparr> opt_projectRoot = ''/root'', opt_registry = newFileRegistry,
       alwaysCreateEntryPointModule = wrap \<rparr>"

text \<open>
  A \<open>ContainerReflection.fromObject\<close> that does nothing but defer the given callbacks, in
  their order.
\<close>

definition queueingAbsent :: "Callback list \<Rightarrow> unit AbsentCode" where
  "queueingAbsent cbs =
     plainAbsent\<lparr> containerFromObject := (\<lambda>this obj w. Inr (fst w, foldl de_defer (snd w) cbs)) \<rparr>"

text \<open>A callback that logs a tag and queues the given callbacks.\<close>

definition logging :: "string \<Rightarrow> Callback list \<Rightarrow> Callback" where
  "logging tag queued =
     Callback (\<lambda>p s. Inr (p, s\<lparr> logger := logger s @
                  [Warn (serialized_project_referenced_0_not_part_of_project tag)] \<rparr>, queued))"

text \<open>
  A project of the root and one declaration, a deserializer that maps the old id 10 to
  the declaration and the old id 11 to an id that no reflection has, and a symbol map
  with an entry for each of them and one for the old id 12, which has no new id.
\<close>

definition fixupProject :: ProjectReflection where
  "fixupProject =
     registerReflection
       (newReflection (newProjectReflection 1 ''R'' newFileRegistry) 2 Declaration ''f''
          (KindOther 64) (Some 1)) 2 None None"

definition fixupDeserializer :: Deserializer where
  "fixupDeserializer =
     (newDeserializer 3)\<lparr> dstate := (dstate (newDeserializer 3))
                                   \<lparr> oldIdToNewId := [10 \<mapsto> 2, 11 \<mapsto> 9] \<rparr> \<rparr>"

definition fixupEntries :: "(ReflectionId \<times> ReflectionSymbolId) list" where
  "fixupEntries = [(10, ''a''), (11, ''b''), (12, ''c'')]"

section \<open>Properties of the file registry\<close>

lemma stripAnchor_plain: "CHR ''#'' \<notin> set p \<Longrightarrow> stripAnchor p = (p, None)"
  by (simp add: stripAnchor_def)

lemma stripAnchor_anchor:
  "CHR ''#'' \<notin> set p \<Longrightarrow> stripAnchor (p @ CHR ''#'' # a) = (p, Some a)"
  by (simp add: stripAnchor_def takeWhile_append dropWhile_append)

lemma stripAnchor_fst_plain: "CHR ''#'' \<notin> set (fst (stripAnchor p))"
  by (auto simp: stripAnchor_def dest: set_takeWhileD)

lemma registry_ok_registerAbsolute:
  "registry_ok fr \<Longrightarrow> registry_ok (snd (registerAbsolute fr p))"
  unfolding registry_ok_def registerAbsolute_def Let_def
  by (auto split: prod.splits option.splits simp: less_Suc_eq)

text \<open>What a call does, by the path that remains when the anchor is cut off.\<close>

lemma registerAbsolute_cases:
  assumes "registry_ok fr"
  shows "(\<forall>f. pathToMedia fr (fst (stripAnchor x)) = Some f \<longrightarrow>
            registerAbsolute fr x = ((f, snd (stripAnchor x)), fr)) \<and>
         (pathToMedia fr (fst (stripAnchor x)) = None \<longrightarrow>
            registerAbsolute fr x =
              ((nextId fr, snd (stripAnchor x)),
               fr\<lparr> mediaToPath := (mediaToPath fr)(nextId fr \<mapsto> fst (stripAnchor x)),
                   pathToMedia := (pathToMedia fr)(fst (stripAnchor x) \<mapsto> nextId fr),
                   nextId := nextId fr + 1 \<rparr>))"
  using assms unfolding registry_ok_def registerAbsolute_def
  by (auto split: prod.splits option.splits)

lemma registerAbsolute_stores:
  assumes "registry_ok fr"
  shows "pathToMedia (snd (registerAbsolute fr x)) (fst (stripAnchor x)) =
           Some (fst (fst (registerAbsolute fr x))) \<and>
         mediaToPath (snd (registerAbsolute fr x)) (fst (fst (registerAbsolute fr x))) =
           Some (fst (stripAnchor x)) \<and>
         snd (fst (registerAbsolute fr x)) = snd (stripAnchor x) \<and>
         fst (fst (registerAbsolute fr x)) \<noteq> 0 \<and>
         (\<forall>q f. pathToMedia fr q = Some f \<longrightarrow> pathToMedia (snd (registerAbsolute fr x)) q = Some f) \<and>
         (\<forall>q. q \<noteq> fst (stripAnchor x) \<longrightarrow>
              pathToMedia (snd (registerAbsolute fr x)) q = pathToMedia fr q)"
proof (cases "pathToMedia fr (fst (stripAnchor x))")
  case None
  then show ?thesis
    using registerAbsolute_cases [OF assms, of x] assms by (auto simp: registry_ok_def)
next
  case (Some f)
  then show ?thesis
    using registerAbsolute_cases [OF assms, of x] assms by (auto simp: registry_ok_def)
qed

lemma registerAbsolute_same_id_iff:
  assumes "registry_ok fr"
  shows "fst (fst (registerAbsolute (snd (registerAbsolute fr x)) y)) = fst (fst (registerAbsolute fr x))
           \<longleftrightarrow> fst (stripAnchor y) = fst (stripAnchor x)"
proof -
  let ?fr1 = "snd (registerAbsolute fr x)"
  let ?t = "fst (fst (registerAbsolute fr x))"
  have ok1: "registry_ok ?fr1" using assms by (rule registry_ok_registerAbsolute)
  have s: "pathToMedia ?fr1 (fst (stripAnchor x)) = Some ?t"
    using registerAbsolute_stores [OF assms, of x] by blast
  have lt: "?t < nextId ?fr1" "mediaToPath ?fr1 ?t = Some (fst (stripAnchor x))"
    using ok1 s unfolding registry_ok_def by blast+
  show ?thesis
  proof (cases "pathToMedia ?fr1 (fst (stripAnchor y))")
    case None
    then have "fst (fst (registerAbsolute ?fr1 y)) = nextId ?fr1"
      using registerAbsolute_cases [OF ok1, of y] by simp
    moreover have "fst (stripAnchor y) \<noteq> fst (stripAnchor x)" using None s by auto
    ultimately show ?thesis using lt(1) by simp
  next
    case (Some f)
    then have e: "fst (fst (registerAbsolute ?fr1 y)) = f"
      using registerAbsolute_cases [OF ok1, of y] by simp
    have "mediaToPath ?fr1 f = Some (fst (stripAnchor y))"
      using ok1 Some unfolding registry_ok_def by blast
    then show ?thesis using e lt(2) s Some by auto
  qed
qed

lemma registry_ok_new: "registry_ok newFileRegistry"
  by (simp add: registry_ok_def newFileRegistry_def)

lemma registerAbsolute_fresh:
  "registry_ok fr \<Longrightarrow> CHR ''#'' \<notin> set p \<Longrightarrow> pathToMedia fr p = None \<Longrightarrow>
   registerAbsolute fr p =
     ((nextId fr, None),
      fr\<lparr> mediaToPath := (mediaToPath fr)(nextId fr \<mapsto> p),
          pathToMedia := (pathToMedia fr)(p \<mapsto> nextId fr),
          nextId := nextId fr + 1 \<rparr>)"
  by (simp add: registerAbsolute_def stripAnchor_plain)

lemma registerAbsolute_known:
  "CHR ''#'' \<notin> set p \<Longrightarrow> pathToMedia fr p = Some f \<Longrightarrow> f \<noteq> 0 \<Longrightarrow>
   registerAbsolute fr (p @ CHR ''#'' # a) = ((f, Some a), fr) \<and>
   registerAbsolute fr p = ((f, None), fr)"
  by (simp add: registerAbsolute_def stripAnchor_plain stripAnchor_anchor)

lemma registerAbsolute_registers:
  "registry_ok fr \<Longrightarrow> CHR ''#'' \<notin> set p \<Longrightarrow>
   \<exists>f. f \<noteq> 0 \<and> fst (registerAbsolute fr p) = (f, None) \<and>
       pathToMedia (snd (registerAbsolute fr p)) p = Some f \<and>
       mediaToPath (snd (registerAbsolute fr p)) f = Some p"
  unfolding registry_ok_def registerAbsolute_def
  by (auto simp: stripAnchor_plain split: option.splits)

lemma stripAnchor_fst_iff:
  assumes "CHR ''#'' \<notin> set p"
  shows "fst (stripAnchor x) = p \<longleftrightarrow> x = p \<or> (\<exists>c. x = p @ CHR ''#'' # c)"
proof
  assume l: "fst (stripAnchor x) = p"
  show "x = p \<or> (\<exists>c. x = p @ CHR ''#'' # c)"
  proof (cases "CHR ''#'' \<in> set x")
    case False
    then show ?thesis using l by (simp add: stripAnchor_def)
  next
    case True
    then have p: "takeWhile (\<lambda>c. c \<noteq> CHR ''#'') x = p" using l by (simp add: stripAnchor_def)
    have ne: "dropWhile (\<lambda>c. c \<noteq> CHR ''#'') x \<noteq> []"
      using True by (simp add: dropWhile_eq_Nil_conv)
    then have "hd (dropWhile (\<lambda>c. c \<noteq> CHR ''#'') x) = CHR ''#''"
      using hd_dropWhile [of "\<lambda>c. c \<noteq> CHR ''#''" x] by simp
    then obtain c where c: "dropWhile (\<lambda>c. c \<noteq> CHR ''#'') x = CHR ''#'' # c"
      using ne by (cases "dropWhile (\<lambda>c. c \<noteq> CHR ''#'') x") auto
    have "x = takeWhile (\<lambda>c. c \<noteq> CHR ''#'') x @ dropWhile (\<lambda>c. c \<noteq> CHR ''#'') x" by simp
    then have "x = p @ CHR ''#'' # c" unfolding p c .
    then show ?thesis by blast
  qed
next
  assume "x = p \<or> (\<exists>c. x = p @ CHR ''#'' # c)"
  then show "fst (stripAnchor x) = p"
    using assms by (auto simp: stripAnchor_plain stripAnchor_anchor)
qed

text \<open>
  Claim C5. \<open>registerAbsolute\<close> strips the anchor and dedups by the remaining path. On a
  registry whose ids are positive, registering a path \<open>p\<close> without \<open>#\<close> gives an id \<open>t\<close>
  other than 0 and stores \<open>p\<close> under \<open>t\<close> in both directions, and the paths registered before
  keep their ids. Afterwards a call returns \<open>t\<close> exactly for \<open>p\<close> and for \<open>p#c\<close> with any
  anchor \<open>c\<close>, so any other remaining path gets another id, and such a call leaves the
  registry as it is. The anchor returned is \<open>undefined\<close> for \<open>p\<close> and the text after the first
  \<open>#\<close> otherwise, and registering \<open>p#a\<close> first assigns the same id and gives the same
  registry as registering \<open>p\<close>.
\<close>

theorem registerAbsolute_dedup:
  assumes "registry_ok fr" and "CHR ''#'' \<notin> set p"
  shows "\<exists>t fr1. registerAbsolute fr p = ((t, None), fr1) \<and>
           registerAbsolute fr1 (p @ CHR ''#'' # a) = ((t, Some a), fr1) \<and>
           registerAbsolute fr1 (p @ CHR ''#'' # b) = ((t, Some b), fr1) \<and>
           registerAbsolute fr1 p = ((t, None), fr1) \<and>
           fst (fst (registerAbsolute fr (p @ CHR ''#'' # a))) = t \<and>
           snd (registerAbsolute fr (p @ CHR ''#'' # a)) = fr1 \<and>
           t \<noteq> 0 \<and> pathToMedia fr1 p = Some t \<and> mediaToPath fr1 t = Some p \<and>
           (\<forall>q f. pathToMedia fr q = Some f \<longrightarrow> pathToMedia fr1 q = Some f) \<and>
           (\<forall>x. fst (fst (registerAbsolute fr1 x)) = t \<longleftrightarrow>
                  x = p \<or> (\<exists>c. x = p @ CHR ''#'' # c)) \<and>
           (\<forall>x. snd (fst (registerAbsolute fr1 x)) = snd (stripAnchor x))"
proof -
  let ?fr1 = "snd (registerAbsolute fr p)"
  let ?t = "fst (fst (registerAbsolute fr p))"
  have sp: "stripAnchor p = (p, None)" using assms(2) by (rule stripAnchor_plain)
  note st = registerAbsolute_stores [OF assms(1), of p, unfolded sp fst_conv snd_conv]
  have ok1: "registry_ok ?fr1" using assms(1) by (rule registry_ok_registerAbsolute)
  have 1: "registerAbsolute fr p = ((?t, None), ?fr1)"
    using st by (simp add: prod_eq_iff)
  have known: "registerAbsolute ?fr1 x = ((?t, snd (stripAnchor x)), ?fr1)"
    if "fst (stripAnchor x) = p" for x
    using registerAbsolute_cases [OF ok1, of x] st that by simp
  have 2: "registerAbsolute ?fr1 (p @ CHR ''#'' # a) = ((?t, Some a), ?fr1)"
      "registerAbsolute ?fr1 (p @ CHR ''#'' # b) = ((?t, Some b), ?fr1)"
      "registerAbsolute ?fr1 p = ((?t, None), ?fr1)"
    using known [of "p @ CHR ''#'' # a"] known [of "p @ CHR ''#'' # b"] known [of p] assms(2)
    by (simp_all add: stripAnchor_plain stripAnchor_anchor)
  have 3: "registerAbsolute fr (p @ CHR ''#'' # a) = ((?t, Some a), ?fr1)"
    using 1 assms(2)
    by (auto simp: registerAbsolute_def stripAnchor_plain stripAnchor_anchor
             split: option.splits if_splits)
  have 4: "?t \<noteq> 0" "pathToMedia ?fr1 p = Some ?t" "mediaToPath ?fr1 ?t = Some p"
      "\<forall>q f. pathToMedia fr q = Some f \<longrightarrow> pathToMedia ?fr1 q = Some f"
    using st by blast+
  have 5: "\<forall>x. fst (fst (registerAbsolute ?fr1 x)) = ?t \<longleftrightarrow>
                  x = p \<or> (\<exists>c. x = p @ CHR ''#'' # c)"
    using registerAbsolute_same_id_iff [OF assms(1), of p] stripAnchor_fst_iff [OF assms(2)]
    by (simp add: sp)
  have 6: "\<forall>x. snd (fst (registerAbsolute ?fr1 x)) = snd (stripAnchor x)"
    using registerAbsolute_stores [OF ok1] by blast
  show ?thesis
    by (rule exI [of _ ?t], rule exI [of _ ?fr1]) (intro conjI 1 2 3 4 5 6; simp add: 3)
qed

theorem registerAbsolute_dedup_witness:
  "registry_ok newFileRegistry \<and> CHR ''#'' \<notin> set ''/a/b.md'' \<and>
   fst (registerAbsolute newFileRegistry ''/a/b.md'') = (1, None) \<and>
   fst (registerAbsolute (snd (registerAbsolute newFileRegistry ''/a/b.md'')) ''/a/b.md#sec'')
     = (1, Some ''sec'') \<and>
   fst (registerAbsolute (snd (registerAbsolute newFileRegistry ''/a/b.md'')) ''/a/c.md#sec'')
     = (2, Some ''sec'') \<and>
   mediaToPath (snd (registerAbsolute newFileRegistry ''/a/b.md'')) 1 = Some ''/a/b.md''"
  using registerAbsolute_dedup [of newFileRegistry "''/a/b.md''" "''sec''" "''sec''"]
  by (auto simp: registry_ok_def registerAbsolute_def stripAnchor_def newFileRegistry_def)

text \<open>
  The removal on a registry in any state: when the path remembered for the reflection is
  not empty and is itself the key of a file, the association of that file to a reflection
  is deleted and nothing else changes.
\<close>

lemma removeReflection_unlinks:
  assumes "reflectionToPath fr r = Some p" and "p \<noteq> []" and "pathToMedia fr p = Some f"
  shows "fr_removeReflection fr r = fr\<lparr> mediaToReflection := (mediaToReflection fr)(f := None) \<rparr>"
  using assms by (simp add: fr_removeReflection_def)

text \<open>
  For a non-empty path \<open>p\<close> without \<open>#\<close> registered as the canonical path of reflection
  \<open>r\<close>, the removal directly after the registration changes nothing but the association
  from the file id of \<open>p\<close> to a reflection, which it deletes: \<open>p\<close> keeps its id,
  \<open>resolvePath\<close> still answers \<open>p\<close>, the reflection-to-path entry of \<open>r\<close> stays, and
  \<open>resolve\<close> answers the path.
\<close>

theorem removeReflection_keeps_path:
  assumes ok: "registry_ok fr0" and p: "p \<noteq> []" "CHR ''#'' \<notin> set p"
  shows "\<exists>f fr1. fr1 = fr_registerReflection fr0 p r \<and>
           fst (registerAbsolute fr0 p) = (f, None) \<and>
           mediaToReflection fr1 f = Some r \<and>
           fr_removeReflection fr1 r = fr1\<lparr> mediaToReflection := (mediaToReflection fr1)(f := None) \<rparr> \<and>
           registerAbsolute (fr_removeReflection fr1 r) p = ((f, None), fr_removeReflection fr1 r) \<and>
           resolvePath (fr_removeReflection fr1 r) f = Some p \<and>
           reflectionToPath (fr_removeReflection fr1 r) r = Some p \<and>
           resolve (fr_removeReflection fr1 r) f g = Some (ResolvedPath p)"
proof -
  obtain f where f: "f \<noteq> 0" "fst (registerAbsolute fr0 p) = (f, None)"
      "pathToMedia (snd (registerAbsolute fr0 p)) p = Some f"
      "mediaToPath (snd (registerAbsolute fr0 p)) f = Some p"
    using registerAbsolute_registers [OF ok p(2)] by blast
  let ?fr1 = "fr_registerReflection fr0 p r"
  let ?fr2 = "fr_removeReflection ?fr1 r"
  have fr1: "?fr1 = (snd (registerAbsolute fr0 p))
                \<lparr> reflectionToPath := (reflectionToPath (snd (registerAbsolute fr0 p)))(r \<mapsto> p),
                  mediaToReflection := (mediaToReflection (snd (registerAbsolute fr0 p)))(f \<mapsto> r) \<rparr>"
    using f(2) by (auto simp: fr_registerReflection_def split: prod.splits)
  have fr2: "?fr2 = ?fr1\<lparr> mediaToReflection := (mediaToReflection ?fr1)(f := None) \<rparr>"
    using f(3) p(1) by (simp add: fr1 fr_removeReflection_def)
  have a: "pathToMedia ?fr2 p = Some f" "mediaToPath ?fr2 f = Some p"
    using f(3,4) by (simp_all add: fr2) (simp_all add: fr1)
  have b: "registerAbsolute ?fr2 p = ((f, None), ?fr2)"
    using registerAbsolute_known [OF p(2) a(1) f(1)] by simp
  have c: "resolve ?fr2 f g = Some (ResolvedPath p)"
    using a(2) by (simp add: resolve_def fr2)
  have d: "reflectionToPath ?fr2 r = Some p" "mediaToReflection ?fr1 f = Some r"
    by (simp_all add: fr2) (simp_all add: fr1)
  show ?thesis using f(2) fr2 a b c d by (simp add: resolvePath_def)
qed

theorem removeReflection_keeps_path_witness:
  "registry_ok newFileRegistry \<and> ''/docs/guide.md'' \<noteq> [] \<and> CHR ''#'' \<notin> set ''/docs/guide.md'' \<and>
   resolve (fr_registerReflection newFileRegistry ''/docs/guide.md'' 7) 1 Some
     = Some (ResolvedReflection (7::nat)) \<and>
   resolve (fr_removeReflection (fr_registerReflection newFileRegistry ''/docs/guide.md'' 7) 7) 1 Some
     = Some (ResolvedPath ''/docs/guide.md'')"
  using removeReflection_keeps_path [of newFileRegistry "''/docs/guide.md''" 7 Some]
  by (auto simp: registry_ok_def registerAbsolute_def stripAnchor_def newFileRegistry_def
        fr_registerReflection_def fr_removeReflection_def resolve_def)

text \<open>
  Claim C10. The claim speaks of every canonical path registered with
  \<open>registerReflection\<close>. For the path \<open>/docs/c#.md\<close> and reflection 7 in a new registry,
  \<open>registerReflection\<close> links file 1, whose key is the text \<open>/docs/c\<close> before the \<open>#\<close>, to
  the reflection and remembers the whole string as the path of the reflection;
  \<open>removeReflection\<close> looks the whole string up in \<open>pathToMedia\<close>, finds no file and deletes
  nothing. The registry is unchanged and file 1 still resolves to reflection 7, where the
  claim has the association deleted and \<open>resolve\<close> answering the path.
\<close>

theorem removeReflection_anchored_path:
  "pathToMedia (fr_registerReflection newFileRegistry ''/docs/c#.md'' 7) ''/docs/c'' = Some 1 \<and>
   pathToMedia (fr_registerReflection newFileRegistry ''/docs/c#.md'' 7) ''/docs/c#.md'' = None \<and>
   mediaToReflection (fr_registerReflection newFileRegistry ''/docs/c#.md'' 7) 1 = Some 7 \<and>
   reflectionToPath (fr_registerReflection newFileRegistry ''/docs/c#.md'' 7) 7 = Some ''/docs/c#.md'' \<and>
   fr_removeReflection (fr_registerReflection newFileRegistry ''/docs/c#.md'' 7) 7 =
     fr_registerReflection newFileRegistry ''/docs/c#.md'' 7 \<and>
   resolve (fr_removeReflection (fr_registerReflection newFileRegistry ''/docs/c#.md'' 7) 7) 1 Some
     = Some (ResolvedReflection (7::nat)) \<and>
   resolvePath (fr_removeReflection (fr_registerReflection newFileRegistry ''/docs/c#.md'' 7) 7) 1
     = Some ''/docs/c''"
  by (simp add: registerAbsolute_def stripAnchor_def newFileRegistry_def
        fr_registerReflection_def fr_removeReflection_def resolve_def resolvePath_def)

text \<open>
  The empty path: \<open>if (absolute)\<close> is false for it, and the removal deletes nothing either.
\<close>

lemma removeReflection_empty_path:
  "fr_removeReflection (fr_registerReflection newFileRegistry [] 7) 7 =
     fr_registerReflection newFileRegistry [] 7 \<and>
   mediaToReflection (fr_registerReflection newFileRegistry [] 7) 1 = Some 7"
  by (simp add: registerAbsolute_def stripAnchor_def newFileRegistry_def
        fr_registerReflection_def fr_removeReflection_def)

lemma digitValue_digitChar: "d < 10 \<Longrightarrow> digitValue (digitChar d) = d"
proof -
  assume "d < 10"
  then have "d \<in> {0, 1, 2, 3, 4, 5, 6, 7, 8, 9}" by auto
  then show ?thesis by (auto simp: digitValue_def digitChar_def)
qed

lemma readNat_showNat:
  "foldl (\<lambda>acc c. 10 * acc + digitValue c) 0 (showNat n) = n"
proof (induction n rule: showNat.induct)
  case (1 n)
  show ?case
  proof (cases "n < 10")
    case True
    then show ?thesis by (subst showNat.simps) (simp add: digitValue_digitChar)
  next
    case False
    then show ?thesis
      using 1 by (subst showNat.simps) (simp add: digitValue_digitChar)
  qed
qed

lemma showNat_inj: "showNat m = showNat n \<Longrightarrow> m = n"
  by (metis readNat_showNat)

lemma suffixed_inj:
  "nm @ ''-'' @ showNat j @ ext = nm @ ''-'' @ showNat k @ ext \<Longrightarrow> j = k"
  by (simp add: showNat_inj)

lemma freeCounter_first:
  assumes "usage (nm @ ''-'' @ showNat k @ ext) = None"
    and "\<forall>j. c \<le> j \<and> j < k \<longrightarrow> usage (nm @ ''-'' @ showNat j @ ext) \<noteq> None"
    and "c \<le> k"
  shows "freeCounter usage nm ext c = Some k"
  using assms
proof (induction "k - c" arbitrary: c)
  case 0
  then have "c = k" by simp
  then show ?case using 0(2) by (subst freeCounter.simps) simp
next
  case (Suc d)
  then have lt: "c < k" by simp
  then have "usage (nm @ ''-'' @ showNat c @ ext) \<noteq> None" using Suc.prems(2) by simp
  moreover have "freeCounter usage nm ext (c + 1) = Some k"
    using Suc.hyps(2) Suc.prems lt by (intro Suc.hyps(1)) auto
  ultimately show ?case by (subst freeCounter.simps) simp
qed

lemma free_counter_exists:
  assumes "finite (dom usage)"
  shows "\<exists>k\<ge>c. usage (nm @ ''-'' @ showNat k @ ext) = None \<and>
               (\<forall>j. c \<le> j \<and> j < k \<longrightarrow> usage (nm @ ''-'' @ showNat j @ ext) \<noteq> None)"
proof -
  let ?name = "\<lambda>k. nm @ ''-'' @ showNat k @ ext"
  have "inj_on ?name {c..}" by (rule inj_onI) (simp add: showNat_inj)
  moreover have "infinite {c..}" by (simp add: infinite_Ici)
  ultimately have "infinite (?name ` {c..})" by (simp add: finite_image_iff)
  then have "\<not> ?name ` {c..} \<subseteq> dom usage" using assms finite_subset by blast
  then obtain k0 where k0: "c \<le> k0" "usage (?name k0) = None" by auto
  define P where "P = (\<lambda>k. c \<le> k \<and> usage (?name k) = None)"
  have "\<exists>k. P k" using k0 unfolding P_def by blast
  then obtain k where k: "P k" "\<forall>j<k. \<not> P j"
    using exists_least_iff [of P] by blast
  have 1: "c \<le> k" "usage (?name k) = None" using k(1) unfolding P_def by simp_all
  have 2: "usage (?name j) \<noteq> None" if "c \<le> j" "j < k" for j
    using k(2) that unfolding P_def by simp
  show ?thesis
    by (rule exI [of _ k]) (use 1 2 in simp)
qed

lemma splitFilename_join: "splitFilename b = (nm, ext) \<Longrightarrow> nm @ ext = b"
proof -
  assume a: "splitFilename b = (nm, ext)"
  let ?e = "rev (takeWhile (\<lambda>c. c \<noteq> CHR ''.'') (rev b))"
  show ?thesis
  proof (cases "CHR ''.'' \<in> set b \<and> length ?e + 1 < length b")
    case False
    with a show ?thesis by (auto simp: splitFilename_def Let_def)
  next
    case True
    then have nm: "nm = take (length b - length ?e - 1) b" and ext: "ext = CHR ''.'' # ?e"
      using a by (auto simp: splitFilename_def Let_def)
    have "rev b = takeWhile (\<lambda>c. c \<noteq> CHR ''.'') (rev b) @ dropWhile (\<lambda>c. c \<noteq> CHR ''.'') (rev b)"
      by simp
    moreover have "dropWhile (\<lambda>c. c \<noteq> CHR ''.'') (rev b) \<noteq> []"
      using True by (simp add: dropWhile_eq_Nil_conv) 
    then have "hd (dropWhile (\<lambda>c. c \<noteq> CHR ''.'') (rev b)) = CHR ''.''"
      using hd_dropWhile [of "\<lambda>c. c \<noteq> CHR ''.''" "rev b"] by simp
    then obtain rest where rest: "dropWhile (\<lambda>c. c \<noteq> CHR ''.'') (rev b) = CHR ''.'' # rest"
      using \<open>dropWhile (\<lambda>c. c \<noteq> CHR ''.'') (rev b) \<noteq> []\<close>
      by (cases "dropWhile (\<lambda>c. c \<noteq> CHR ''.'') (rev b)") auto
    ultimately have "rev b = rev ?e @ CHR ''.'' # rest" by simp
    then have b: "b = rev rest @ CHR ''.'' # ?e"
      by (metis rev_append rev_rev_ident rev.simps(2) append.assoc append_Cons append_Nil)
    have "length b - length ?e - 1 = length (rev rest)"
      by (subst b) simp
    then have "nm = rev rest" using nm
      by (metis append_eq_conv_conj b)
    then show ?thesis using b ext by simp
  qed
qed

lemma showNat_1: "showNat (Suc 0) = ''1''" and showNat_2: "showNat 2 = ''2''"
  by (simp_all add: showNat.simps digitChar_def)

lemma three_registered:
  assumes "p1 \<noteq> p2" "p1 \<noteq> p3" "p2 \<noteq> p3"
    and "CHR ''#'' \<notin> set p1" "CHR ''#'' \<notin> set p2" "CHR ''#'' \<notin> set p3"
  shows "snd (registerAbsolute (snd (registerAbsolute (snd (registerAbsolute newFileRegistry p1)) p2)) p3)
         = newFileRegistry\<lparr> mediaToPath := [1 \<mapsto> p1, 2 \<mapsto> p2, 3 \<mapsto> p3],
                            pathToMedia := [p1 \<mapsto> 1, p2 \<mapsto> 2, p3 \<mapsto> 3], nextId := 4 \<rparr>"
  using assms
  by (simp add: registerAbsolute_def stripAnchor_plain newFileRegistry_def numeral_2_eq_2 numeral_3_eq_3)

lemma three_same_names:
  assumes "distinct [p1, p2, p3]"
    and "\<forall>p \<in> set [p1, p2, p3]. p \<noteq> [] \<and> CHR ''#'' \<notin> set p \<and> basename p = b"
    and "splitFilename b = (nm, ext)"
  shows "\<exists>g1 g2 g3.
           getName (snd (registerAbsolute (snd (registerAbsolute
                      (snd (registerAbsolute newFileRegistry p1)) p2)) p3)) 1 = Some (Some b, g1) \<and>
           getName g1 2 = Some (Some (nm @ ''-1'' @ ext), g2) \<and>
           getName g2 3 = Some (Some (nm @ ''-2'' @ ext), g3) \<and>
           getName g3 1 = Some (Some b, g3) \<and>
           getName g3 2 = Some (Some (nm @ ''-1'' @ ext), g3) \<and>
           getName g3 3 = Some (Some (nm @ ''-2'' @ ext), g3) \<and>
           nameUsage g3 b = Some 3"
proof -
  let ?fr = "newFileRegistry\<lparr> mediaToPath := [1 \<mapsto> p1, 2 \<mapsto> p2, 3 \<mapsto> p3],
                            pathToMedia := [p1 \<mapsto> 1, p2 \<mapsto> 2, p3 \<mapsto> 3], nextId := 4 \<rparr>"
  have reg: "snd (registerAbsolute (snd (registerAbsolute (snd (registerAbsolute newFileRegistry p1)) p2)) p3) = ?fr"
    using assms(1,2) by (intro three_registered) auto
  have b: "nm @ ext = b" by (rule splitFilename_join [OF assms(3)])
  have ne: "nm @ ''-1'' @ ext \<noteq> b" "nm @ ''-2'' @ ext \<noteq> b" "nm @ ''-2'' @ ext \<noteq> nm @ ''-1'' @ ext"
    using b by auto
  let ?g1 = "?fr\<lparr> nameUsage := [b \<mapsto> 1], names := [1 \<mapsto> b] \<rparr>"
  let ?g2 = "?g1\<lparr> nameUsage := [b \<mapsto> 2, nm @ ''-1'' @ ext \<mapsto> 2],
                  names := [1 \<mapsto> b, 2 \<mapsto> nm @ ''-1'' @ ext] \<rparr>"
  let ?g3 = "?g2\<lparr> nameUsage := [b \<mapsto> 3, nm @ ''-1'' @ ext \<mapsto> 2, nm @ ''-2'' @ ext \<mapsto> 3],
                  names := [1 \<mapsto> b, 2 \<mapsto> nm @ ''-1'' @ ext, 3 \<mapsto> nm @ ''-2'' @ ext] \<rparr>"
  have 1: "getName ?fr 1 = Some (Some b, ?g1)"
    using assms(2) by (simp add: getName_def newFileRegistry_def)
  have c1: "freeCounter [b \<mapsto> 1] nm ext 1 = Some 1"
    using ne by (subst freeCounter.simps) (simp add: showNat_1)
  have 2: "getName ?g1 2 = Some (Some (nm @ ''-1'' @ ext), ?g2)"
    using assms(2,3) c1 by (simp add: getName_def newFileRegistry_def showNat_1 Let_def numeral_2_eq_2)
  have c2: "freeCounter [b \<mapsto> 2, nm @ ''-1'' @ ext \<mapsto> 2] nm ext 2 = Some 2"
    using ne by (subst freeCounter.simps) (simp add: showNat_2)
  have 3: "getName ?g2 3 = Some (Some (nm @ ''-2'' @ ext), ?g3)"
    using assms(2,3) c2 ne
    by (simp add: getName_def newFileRegistry_def showNat_2 fun_upd_twist Let_def numeral_3_eq_3)
  have 4: "getName ?g3 1 = Some (Some b, ?g3)"
      "getName ?g3 2 = Some (Some (nm @ ''-1'' @ ext), ?g3)"
      "getName ?g3 3 = Some (Some (nm @ ''-2'' @ ext), ?g3)"
    using assms(2) by (simp_all add: getName_def newFileRegistry_def)
  have 5: "nameUsage ?g3 b = Some 3" using ne by simp
  show ?thesis unfolding reg using 1 2 3 4 5 by blast
qed


lemma getName_named:
  assumes "mediaToPath fr i = Some p" and "p \<noteq> []" and "names fr i = Some n"
  shows "getName fr i = Some (Some n, fr)"
  using assms by (simp add: getName_def)

lemma getName_bare:
  assumes "mediaToPath fr i = Some p" and "p \<noteq> []" and "names fr i = None"
    and "nameUsage fr (basename p) = None"
  shows "getName fr i =
           Some (Some (basename p),
                 fr\<lparr> nameUsage := (nameUsage fr)(basename p \<mapsto> 1),
                     names := (names fr)(i \<mapsto> basename p) \<rparr>)"
  using assms by (simp add: getName_def Let_def)

lemma getName_suffixed:
  assumes "mediaToPath fr i = Some p" and "p \<noteq> []" and "names fr i = None"
    and "splitFilename (basename p) = (nm, ext)"
    and "nameUsage fr (basename p) = Some c" and "c \<le> k"
    and "nameUsage fr (nm @ ''-'' @ showNat k @ ext) = None"
    and "\<forall>j. c \<le> j \<and> j < k \<longrightarrow> nameUsage fr (nm @ ''-'' @ showNat j @ ext) \<noteq> None"
  shows "getName fr i =
           Some (Some (nm @ ''-'' @ showNat k @ ext),
                 fr\<lparr> nameUsage := ((nameUsage fr)(basename p \<mapsto> k + 1))
                                    (nm @ ''-'' @ showNat k @ ext \<mapsto> k + 1),
                     names := (names fr)(i \<mapsto> nm @ ''-'' @ showNat k @ ext) \<rparr>)"
proof -
  have "freeCounter (nameUsage fr) nm ext c = Some k"
    using assms(7,8,6) by (rule freeCounter_first)
  then show ?thesis using assms(1-5) by (simp add: getName_def Let_def)
qed

lemma getName_returns:
  assumes "mediaToPath fr i = Some p" and "p \<noteq> []" and "finite (dom (nameUsage fr))"
  shows "\<exists>n fr'. getName fr i = Some (Some n, fr') \<and> names fr' i = Some n"
proof (cases "names fr i")
  case (Some n)
  then show ?thesis using getName_named [OF assms(1,2)] by simp
next
  case None
  show ?thesis
  proof (cases "nameUsage fr (basename p)")
    case None2: None
    show ?thesis using getName_bare [OF assms(1,2) None None2] by simp
  next
    case (Some c)
    obtain nm ext where sp: "splitFilename (basename p) = (nm, ext)"
      by (cases "splitFilename (basename p)")
    obtain k where k: "c \<le> k" "nameUsage fr (nm @ ''-'' @ showNat k @ ext) = None"
        "\<forall>j. c \<le> j \<and> j < k \<longrightarrow> nameUsage fr (nm @ ''-'' @ showNat j @ ext) \<noteq> None"
      using free_counter_exists [OF assms(3)] by blast
    show ?thesis using getName_suffixed [OF assms(1,2) None sp Some k] by simp
  qed
qed

text \<open>
  Claim C6, amended. A registered file with a non-empty path is named once: asking again
  returns the name it has. A file not yet named keeps its bare base name when that name
  has not been used, neither as a base name nor as a suffixed name given to another file,
  and 1 is remembered for it. Otherwise it gets the base name with \<open>-k\<close> before the
  extension, where \<open>k\<close> is the first counter, from the one remembered for the base name
  on, whose suffixed name has not been used, and \<open>k + 1\<close> is remembered for the base name
  and for the suffixed name. With finitely many names used the call returns a name. For
  three distinct paths with the same base name registered in a new registry and named in
  registration order, the first keeps the base name, the second gets \<open>-1\<close> and the third
  \<open>-2\<close>.
\<close>

theorem getName_collisions:
  assumes "splitFilename b = (nm, ext)"
  shows "(mediaToPath fr i = Some p \<and> p \<noteq> [] \<and> basename p = b \<longrightarrow>
            (\<forall>n. names fr i = Some n \<longrightarrow> getName fr i = Some (Some n, fr)) \<and>
            (names fr i = None \<and> nameUsage fr b = None \<longrightarrow>
               getName fr i =
                 Some (Some b, fr\<lparr> nameUsage := (nameUsage fr)(b \<mapsto> 1),
                                   names := (names fr)(i \<mapsto> b) \<rparr>)) \<and>
            (\<forall>c k. names fr i = None \<and> nameUsage fr b = Some c \<and> c \<le> k \<and>
                   nameUsage fr (nm @ ''-'' @ showNat k @ ext) = None \<and>
                   (\<forall>j. c \<le> j \<and> j < k \<longrightarrow> nameUsage fr (nm @ ''-'' @ showNat j @ ext) \<noteq> None) \<longrightarrow>
               getName fr i =
                 Some (Some (nm @ ''-'' @ showNat k @ ext),
                       fr\<lparr> nameUsage := ((nameUsage fr)(b \<mapsto> k + 1))
                                          (nm @ ''-'' @ showNat k @ ext \<mapsto> k + 1),
                           names := (names fr)(i \<mapsto> nm @ ''-'' @ showNat k @ ext) \<rparr>)) \<and>
            (finite (dom (nameUsage fr)) \<longrightarrow>
               (\<exists>n fr'. getName fr i = Some (Some n, fr') \<and> names fr' i = Some n))) \<and>
         (distinct [p1, p2, p3] \<and>
          (\<forall>q \<in> set [p1, p2, p3]. q \<noteq> [] \<and> CHR ''#'' \<notin> set q \<and> basename q = b) \<longrightarrow>
            (\<exists>g1 g2 g3.
               getName (snd (registerAbsolute (snd (registerAbsolute
                          (snd (registerAbsolute newFileRegistry p1)) p2)) p3)) 1 = Some (Some b, g1) \<and>
               getName g1 2 = Some (Some (nm @ ''-1'' @ ext), g2) \<and>
               getName g2 3 = Some (Some (nm @ ''-2'' @ ext), g3) \<and>
               getName g3 1 = Some (Some b, g3) \<and>
               getName g3 2 = Some (Some (nm @ ''-1'' @ ext), g3) \<and>
               getName g3 3 = Some (Some (nm @ ''-2'' @ ext), g3) \<and>
               nameUsage g3 b = Some 3))"
proof (intro conjI impI allI)
  fix n
  assume "mediaToPath fr i = Some p \<and> p \<noteq> [] \<and> basename p = b" and "names fr i = Some n"
  then show "getName fr i = Some (Some n, fr)" using getName_named by blast
next
  assume f: "mediaToPath fr i = Some p \<and> p \<noteq> [] \<and> basename p = b"
    and u: "names fr i = None \<and> nameUsage fr b = None"
  from f u have "nameUsage fr (basename p) = None" by simp
  with f u show "getName fr i =
                 Some (Some b, fr\<lparr> nameUsage := (nameUsage fr)(b \<mapsto> 1),
                                   names := (names fr)(i \<mapsto> b) \<rparr>)"
    using getName_bare [of fr i p] by auto
next
  fix c k
  assume f: "mediaToPath fr i = Some p \<and> p \<noteq> [] \<and> basename p = b"
    and u: "names fr i = None \<and> nameUsage fr b = Some c \<and> c \<le> k \<and>
            nameUsage fr (nm @ ''-'' @ showNat k @ ext) = None \<and>
            (\<forall>j. c \<le> j \<and> j < k \<longrightarrow> nameUsage fr (nm @ ''-'' @ showNat j @ ext) \<noteq> None)"
  have sp: "splitFilename (basename p) = (nm, ext)" using assms f by simp
  have uc: "nameUsage fr (basename p) = Some c" using f u by simp
  show "getName fr i =
                 Some (Some (nm @ ''-'' @ showNat k @ ext),
                       fr\<lparr> nameUsage := ((nameUsage fr)(b \<mapsto> k + 1))
                                          (nm @ ''-'' @ showNat k @ ext \<mapsto> k + 1),
                           names := (names fr)(i \<mapsto> nm @ ''-'' @ showNat k @ ext) \<rparr>)"
    using getName_suffixed [of fr i p nm ext c k, OF _ _ _ sp uc] f u by auto
next
  assume f: "mediaToPath fr i = Some p \<and> p \<noteq> [] \<and> basename p = b"
    and "finite (dom (nameUsage fr))"
  then show "\<exists>n fr'. getName fr i = Some (Some n, fr') \<and> names fr' i = Some n"
    using getName_returns [of fr i p] by blast
next
  assume h: "distinct [p1, p2, p3] \<and>
          (\<forall>q \<in> set [p1, p2, p3]. q \<noteq> [] \<and> CHR ''#'' \<notin> set q \<and> basename q = b)"
  then have h1: "distinct [p1, p2, p3]"
    and h2: "\<forall>p \<in> set [p1, p2, p3]. p \<noteq> [] \<and> CHR ''#'' \<notin> set p \<and> basename p = b"
    by blast+
  show "\<exists>g1 g2 g3.
               getName (snd (registerAbsolute (snd (registerAbsolute
                          (snd (registerAbsolute newFileRegistry p1)) p2)) p3)) 1 = Some (Some b, g1) \<and>
               getName g1 2 = Some (Some (nm @ ''-1'' @ ext), g2) \<and>
               getName g2 3 = Some (Some (nm @ ''-2'' @ ext), g3) \<and>
               getName g3 1 = Some (Some b, g3) \<and>
               getName g3 2 = Some (Some (nm @ ''-1'' @ ext), g3) \<and>
               getName g3 3 = Some (Some (nm @ ''-2'' @ ext), g3) \<and>
               nameUsage g3 b = Some 3"
    by (rule three_same_names [OF h1 h2 assms])
qed

theorem getName_collisions_witness:
  "splitFilename ''index.md'' = (''index'', ''.md'') \<and>
   distinct [''/a/index.md'', ''/b/index.md'', ''/c/index.md''] \<and>
   basename ''/a/index.md'' = ''index.md'' \<and> basename ''/b/index.md'' = ''index.md'' \<and>
   basename ''/c/index.md'' = ''index.md'' \<and>
   (\<exists>g1 g2 g3.
      getName (snd (registerAbsolute (snd (registerAbsolute
          (snd (registerAbsolute newFileRegistry ''/a/index.md'')) ''/b/index.md'')) ''/c/index.md'')) 1
        = Some (Some ''index.md'', g1) \<and>
      getName g1 2 = Some (Some ''index-1.md'', g2) \<and>
      getName g2 3 = Some (Some ''index-2.md'', g3)) \<and>
   mediaToPath indexOneTaken 3 = Some ''/b/index.md'' \<and>
   names indexOneTaken 1 = Some ''index-1.md'' \<and>
   names indexOneTaken 2 = Some ''index.md'' \<and>
   names indexOneTaken 3 = None \<and>
   nameUsage indexOneTaken ''index.md'' = Some 1 \<and>
   nameUsage indexOneTaken ''index-1.md'' = Some 1 \<and>
   nameUsage indexOneTaken ''index-2.md'' = None \<and>
   map_option fst (getName indexOneTaken 3) = Some (Some ''index-2.md'')"
proof -
  have h1: "distinct [''/a/index.md'', ''/b/index.md'', ''/c/index.md'']" by simp
  have h2: "\<forall>q \<in> set [''/a/index.md'', ''/b/index.md'', ''/c/index.md''].
       q \<noteq> [] \<and> CHR ''#'' \<notin> set q \<and> basename q = ''index.md''"
    by (simp add: basename_def)
  have h3: "splitFilename ''index.md'' = (''index'', ''.md'')"
    by (simp add: splitFilename_def)
  have e: "mediaToPath indexOneTaken 3 = Some ''/b/index.md''"
      "names indexOneTaken 1 = Some ''index-1.md''"
      "names indexOneTaken 2 = Some ''index.md''"
      "names indexOneTaken 3 = None"
      "nameUsage indexOneTaken ''index.md'' = Some 1"
      "nameUsage indexOneTaken ''index-1.md'' = Some 1"
      "nameUsage indexOneTaken ''index-2.md'' = None"
      "basename ''/b/index.md'' = ''index.md''"
    by code_simp+
  have s: "showNat 1 = ''1''" "showNat 2 = ''2''" by code_simp+
  have j: "\<forall>j. (1::nat) \<le> j \<and> j < 2 \<longrightarrow>
             nameUsage indexOneTaken (''index'' @ ''-'' @ showNat j @ ''.md'') \<noteq> None"
  proof (intro allI impI)
    fix j :: nat
    assume "1 \<le> j \<and> j < 2"
    then have "j = 1" by simp
    then show "nameUsage indexOneTaken (''index'' @ ''-'' @ showNat j @ ''.md'') \<noteq> None"
      using e(6) s(1) by simp
  qed
  note t = getName_collisions [OF h3, where fr = indexOneTaken and i = 3 and p = "''/b/index.md''"
             and ?p1.0 = "''/a/index.md''" and ?p2.0 = "''/b/index.md''" and ?p3.0 = "''/c/index.md''"]
  have three: "\<exists>g1 g2 g3.
      getName (snd (registerAbsolute (snd (registerAbsolute
          (snd (registerAbsolute newFileRegistry ''/a/index.md'')) ''/b/index.md'')) ''/c/index.md'')) 1
        = Some (Some ''index.md'', g1) \<and>
      getName g1 2 = Some (Some ''index-1.md'', g2) \<and>
      getName g2 3 = Some (Some ''index-2.md'', g3)"
    using t h1 h2 by auto
  have "names indexOneTaken 3 = None \<and> nameUsage indexOneTaken ''index.md'' = Some 1 \<and> (1::nat) \<le> 2 \<and>
        nameUsage indexOneTaken (''index'' @ ''-'' @ showNat 2 @ ''.md'') = None \<and>
        (\<forall>j. (1::nat) \<le> j \<and> j < 2 \<longrightarrow>
             nameUsage indexOneTaken (''index'' @ ''-'' @ showNat j @ ''.md'') \<noteq> None)"
    using e j s by simp
  moreover have "mediaToPath indexOneTaken 3 = Some ''/b/index.md'' \<and> ''/b/index.md'' \<noteq> [] \<and>
                 basename ''/b/index.md'' = ''index.md''"
    using e by simp
  ultimately have "getName indexOneTaken 3 =
      Some (Some (''index'' @ ''-'' @ showNat 2 @ ''.md''),
            indexOneTaken\<lparr> nameUsage := ((nameUsage indexOneTaken)(''index.md'' \<mapsto> 2 + 1))
                                          (''index'' @ ''-'' @ showNat 2 @ ''.md'' \<mapsto> 2 + 1),
                           names := (names indexOneTaken)(3 \<mapsto> ''index'' @ ''-'' @ showNat 2 @ ''.md'') \<rparr>)"
    using t by blast
  then have third: "map_option fst (getName indexOneTaken 3) = Some (Some ''index-2.md'')"
    using s by simp
  show ?thesis
    using h1 h2 h3 three e third by simp
qed

text \<open>
  Claim C6 as stated gives \<open>index-2.md\<close> to the second of three files named \<open>index.md\<close>;
  the code gives it \<open>index-1.md\<close>.
\<close>

theorem getName_collisions_counterexample:
  "map_option fst (getName threeIndexFiles 1) = Some (Some ''index.md'') \<and>
   map_option fst (getName (snd (the (getName threeIndexFiles 1))) 2) = Some (Some ''index-1.md'') \<and>
   map_option fst (getName (snd (the (getName threeIndexFiles 1))) 2) \<noteq> Some (Some ''index-2.md'')"
  by (simp add: threeIndexFiles_def registerAbsolute_def stripAnchor_def newFileRegistry_def
        getName_def basename_def splitFilename_def freeCounter.simps showNat.simps digitChar_def Let_def)

section \<open>The children index under register, remove and merge\<close>

lemma shrinks_refl: "shrinks st st"
  by (simp add: shrinks_def)

lemma shrinks_trans:
  assumes ab: "shrinks a b" and bc: "shrinks b c"
  shows "shrinks a c"
proof -
  have par: "\<And>x. parentOf b x = parentOf a x" "\<And>x. parentOf c x = parentOf b x"
    using ab bc by (simp_all add: shrinks_def)
  have sub: "set (reflections b) \<subseteq> set (reflections a)" "set (reflections c) \<subseteq> set (reflections b)"
    using ab bc by (simp_all add: shrinks_def)
  have ch: "childrenOf c p = childrenOf a p \<or>
          (childrenOf c p = [] \<and>
           (\<forall>x \<in> set (childrenOf a p). parentOf a x = Some p \<longrightarrow> x \<notin> set (reflections c)))" for p
  proof -
    have 1: "childrenOf b p = childrenOf a p \<or>
          (childrenOf b p = [] \<and>
           (\<forall>x \<in> set (childrenOf a p). parentOf a x = Some p \<longrightarrow> x \<notin> set (reflections b)))"
      using ab by (simp add: shrinks_def)
    have 2: "childrenOf c p = childrenOf b p \<or>
          (childrenOf c p = [] \<and>
           (\<forall>x \<in> set (childrenOf b p). parentOf b x = Some p \<longrightarrow> x \<notin> set (reflections c)))"
      using bc by (simp add: shrinks_def)
    from 1 show ?thesis
    proof
      assume e: "childrenOf b p = childrenOf a p"
      from 2 show ?thesis using e par by auto
    next
      assume d: "childrenOf b p = [] \<and>
           (\<forall>x \<in> set (childrenOf a p). parentOf a x = Some p \<longrightarrow> x \<notin> set (reflections b))"
      then have "childrenOf c p = []" using 2 by auto
      then show ?thesis using d sub by auto
    qed
  qed
  show ?thesis
    unfolding shrinks_def
    using ab bc par sub ch by (auto simp: shrinks_def)
qed

lemma storeInvariant_consistent: "storeInvariant st \<Longrightarrow> childrenIndexConsistent st"
  unfolding storeInvariant_def childrenIndexConsistent_def by blast

lemma shrinks_invariant: "storeInvariant st \<Longrightarrow> shrinks st st' \<Longrightarrow> storeInvariant st'"
  unfolding storeInvariant_def shrinks_def
  apply (elim conjE)
  apply (intro conjI ballI allI impI)
     apply blast
    apply (metis empty_iff list.set(1))
   apply (metis empty_iff list.set(1))
  apply (metis subsetD)
  done

lemma parent_detachSlot: "parent (detachSlot p r property) = parent p"
  by (cases property) (simp_all add: detachSlot_def removeChild_def)

lemma shrinks_same:
  "objs st' = objs st \<Longrightarrow> reflections st' = reflections st \<Longrightarrow>
   reflectionChildren st' = reflectionChildren st \<Longrightarrow> shrinks st st'"
  by (simp add: shrinks_def parentOf_def childrenOf_def)

lemma detachFromParent_shrinks: "shrinks st (detachFromParent st r)"
  unfolding shrinks_def
  by (auto simp: detachFromParent_def parentOf_def childrenOf_def parent_detachSlot
           split: option.splits prod.splits)

lemma detachFromParent_reflections: "reflections (detachFromParent st r) = reflections st"
  by (simp add: detachFromParent_def split: option.splits prod.splits)

lemma unregisterSymbol_fields:
  "objs (unregisterSymbol st r) = objs st"
  "reflectionChildren (unregisterSymbol st r) = reflectionChildren st"
  "reflections (unregisterSymbol st r) = deleteKey r (reflections st)"
  by (simp_all add: unregisterSymbol_def Let_def split: option.splits SymbolEntry.splits)

lemma getReferenceGraph_fields:
  "objs (getReferenceGraph st) = objs st"
  "reflectionChildren (getReferenceGraph st) = reflectionChildren st"
  "reflections (getReferenceGraph st) = reflections st"
  by (simp_all add: getReferenceGraph_def split: option.splits)

lemma finish_shrinks:
  assumes s: "shrinks st3 st4"
    and gone: "\<forall>c \<in> set (childrenOf st3 r). parentOf st3 c = Some r \<longrightarrow> c \<notin> set (reflections st4)"
  shows "shrinks st3 (unregisterSymbol (st4\<lparr> reflectionChildren := (reflectionChildren st4)(r := None) \<rparr>) r)"
    (is "shrinks st3 ?st5")
proof -
  have o: "objs ?st5 = objs st4" by (simp add: unregisterSymbol_fields)
  have t: "set (reflections ?st5) \<subseteq> set (reflections st4)"
    by (auto simp: unregisterSymbol_fields deleteKey_def)
  have c: "childrenOf ?st5 p = (if p = r then [] else childrenOf st4 p)" for p
    by (simp add: childrenOf_def unregisterSymbol_fields)
  have par: "parentOf ?st5 x = parentOf st3 x" for x
    using s by (simp add: parentOf_def o shrinks_def)
  have ch: "childrenOf ?st5 p = childrenOf st3 p \<or>
          (childrenOf ?st5 p = [] \<and>
           (\<forall>x \<in> set (childrenOf st3 p). parentOf st3 x = Some p \<longrightarrow> x \<notin> set (reflections ?st5)))" for p
  proof (cases "p = r")
    case True
    then show ?thesis using gone t c by auto
  next
    case False
    have "childrenOf st4 p = childrenOf st3 p \<or>
          (childrenOf st4 p = [] \<and>
           (\<forall>x \<in> set (childrenOf st3 p). parentOf st3 x = Some p \<longrightarrow> x \<notin> set (reflections st4)))"
      using s by (simp add: shrinks_def)
    then show ?thesis using False t c by auto
  qed
  show ?thesis
    unfolding shrinks_def
    using s o t par ch by (auto simp: shrinks_def)
qed

lemma unregisterSymbol_removes: "r \<notin> set (reflections (unregisterSymbol st r))"
  by (simp add: unregisterSymbol_fields deleteKey_def)

lemma removal_shrinks:
  "removeReflection n st r = Some st' \<Longrightarrow> shrinks st st' \<and> r \<notin> set (reflections st')"
  "removeReflection_inner n st r = Some st' \<Longrightarrow> shrinks st st' \<and> r \<notin> set (reflections st')"
  "removeReferrers n st is = Some st' \<Longrightarrow> shrinks st st'"
  "removeChildren n st r cs = Some st' \<Longrightarrow>
     shrinks st st' \<and> (\<forall>c \<in> set cs. parentOf st c = Some r \<longrightarrow> c \<notin> set (reflections st'))"
proof (induction n st r and n st r and n st "is" and n st r cs
       arbitrary: st' and st' and st' and st'
       rule: removeReflection_removeReflection_inner_removeReferrers_removeChildren.induct)
  case (1 st r)
  then show ?case by simp
next
  case (2 n st r)
  from "2.prems" obtain st1 where a: "removeReflection_inner n st r = Some st1"
      and b: "st' = detachFromParent st1 r"
    by (auto split: option.splits)
  from "2.IH" [OF a] have "shrinks st st1" "r \<notin> set (reflections st1)" by simp_all
  then show ?case
    using b shrinks_trans [OF _ detachFromParent_shrinks] detachFromParent_reflections by auto
next
  case (3 st r)
  then show ?case by simp
next
  case (4 n st r)
  define st1 where "st1 = getReferenceGraph (st\<lparr> files := fr_removeReflection (files st) r \<rparr>)"
  from "4.prems" obtain st2 where a: "removeReferrers n st1 (referrers st1 r) = Some st2"
    by (auto simp: st1_def Let_def split: option.splits)
  define st3 where "st3 = st2\<lparr> referenceGraph :=
                            map_option (\<lambda>graph. graph(r := None)) (referenceGraph st2) \<rparr>"
  from "4.prems" a obtain st4 where b: "removeChildren n st3 r (childrenOf st3 r) = Some st4"
      and c: "st' = unregisterSymbol (st4\<lparr> reflectionChildren := (reflectionChildren st4)(r := None) \<rparr>) r"
    by (auto simp: st1_def [symmetric] st3_def [symmetric] Let_def split: option.splits)
  have s01: "shrinks st st1"
    by (rule shrinks_same) (simp_all add: st1_def getReferenceGraph_fields)
  have s12: "shrinks st1 st2" using "4.IH"(1) [OF st1_def a] .
  have s23: "shrinks st2 st3" by (rule shrinks_same) (simp_all add: st3_def)
  have s34: "shrinks st3 st4"
    and gone: "\<forall>c \<in> set (childrenOf st3 r). parentOf st3 c = Some r \<longrightarrow> c \<notin> set (reflections st4)"
    using "4.IH"(2) [OF st1_def a st3_def b] by simp_all
  have "shrinks st3 st'" unfolding c by (rule finish_shrinks [OF s34 gone])
  then have "shrinks st st'"
    using s01 s12 s23 shrinks_trans by blast
  moreover have "r \<notin> set (reflections st')" unfolding c by (rule unregisterSymbol_removes)
  ultimately show ?case by simp
next
  case (5 n st)
  then show ?case by (simp add: shrinks_refl)
next
  case (6 n st i "is")
  show ?case
  proof (cases "getReflectionById st i")
    case None
    then show ?thesis using "6.IH"(1) "6.prems" by simp
  next
    case (Some ref)
    with "6.prems" obtain st1 where a: "removeReflection n st i = Some st1"
        and b: "removeReferrers n st1 is = Some st'"
      by (auto split: option.splits)
    have "shrinks st st1" using "6.IH"(2) [OF Some a] by simp
    moreover have "shrinks st1 st'" using "6.IH"(3) [OF Some a b] .
    ultimately show ?thesis by (rule shrinks_trans)
  qed
next
  case (7 n st r)
  then show ?case by (simp add: shrinks_refl)
next
  case (8 n st r c cs)
  show ?case
  proof (cases "getReflectionById st c")
    case None
    then have rest: "removeChildren n st r cs = Some st'" using "8.prems" by simp
    have ih: "shrinks st st'"
       "\<forall>x \<in> set cs. parentOf st x = Some r \<longrightarrow> x \<notin> set (reflections st')"
      using "8.IH"(1) [OF None rest] by simp_all
    have "parentOf st c = Some r \<longrightarrow> c \<notin> set (reflections st')"
    proof
      assume p: "parentOf st c = Some r"
      then have "objs st c \<noteq> None" by (auto simp: parentOf_def split: option.splits)
      with None have "c \<notin> set (reflections st)"
        by (auto simp: getReflectionById_def split: if_splits)
      then show "c \<notin> set (reflections st')" using ih(1) by (auto simp: shrinks_def)
    qed
    then show ?thesis using ih by simp
  next
    case (Some child)
    show ?thesis
    proof (cases "parent child = Some r")
      case True
      with Some "8.prems" obtain st1 where a: "removeReflection_inner n st c = Some st1"
          and b: "removeChildren n st1 r cs = Some st'"
        by (auto split: option.splits)
      have s1: "shrinks st st1" "c \<notin> set (reflections st1)"
        using "8.IH"(2) [OF Some True a] by simp_all
      have s2: "shrinks st1 st'"
        "\<forall>x \<in> set cs. parentOf st1 x = Some r \<longrightarrow> x \<notin> set (reflections st')"
        using "8.IH"(3) [OF Some True a b] by simp_all
      have "shrinks st st'" using s1(1) s2(1) by (rule shrinks_trans)
      moreover have "c \<notin> set (reflections st')" using s1(2) s2(1) by (auto simp: shrinks_def)
      moreover have "\<forall>x \<in> set cs. parentOf st x = Some r \<longrightarrow> x \<notin> set (reflections st')"
        using s2(2) s1(1) by (simp add: shrinks_def)
      ultimately show ?thesis by simp
    next
      case False
      then have rest: "removeChildren n st r cs = Some st'" using Some "8.prems" by simp
      have ih: "shrinks st st'"
        "\<forall>x \<in> set cs. parentOf st x = Some r \<longrightarrow> x \<notin> set (reflections st')"
        using "8.IH"(4) [OF Some False rest] by simp_all
      have "parentOf st c \<noteq> Some r"
        using Some False by (auto simp: getReflectionById_def parentOf_def split: if_splits)
      then show ?thesis using ih by simp
    qed
  qed
qed

lemma storeInvariant_new: "storeInvariant (newProjectReflection i nm registry)"
  by (simp add: storeInvariant_def newProjectReflection_def childrenOf_def parentOf_def
        blankReflection_def)

lemma storeInvariant_newReflection:
  assumes "storeInvariant st" "\<not> isObject st i"
  shows "storeInvariant (st\<lparr> objs := (objs st)(i \<mapsto> obj) \<rparr>)" (is "storeInvariant ?st'")
proof -
  have fresh: "objs st i = None" using assms(2) by (simp add: isObject_def)
  have nt: "i \<notin> set (reflections st)" using assms(1) fresh by (auto simp: storeInvariant_def)
  have nc: "i \<notin> set (childrenOf st p)" for p
    using assms(1) fresh by (auto simp: storeInvariant_def)
  have c: "childrenOf ?st' p = childrenOf st p" for p
    by (simp add: childrenOf_def)
  have par: "x \<noteq> i \<Longrightarrow> parentOf ?st' x = parentOf st x" for x
    by (simp add: parentOf_def)
  have t: "reflections ?st' = reflections st" by simp
  have 1: "\<forall>c \<in> set (reflections ?st'). c \<in> dom (objs ?st')"
    using assms(1) by (auto simp: storeInvariant_def)
  have 2: "\<forall>p. \<forall>c \<in> set (childrenOf ?st' p). c \<in> dom (objs ?st') \<and> parentOf ?st' c = Some p"
  proof (intro allI ballI)
    fix p c assume "c \<in> set (childrenOf ?st' p)"
    then have m: "c \<in> set (childrenOf st p)" by (simp add: c)
    then have "c \<noteq> i" using nc by auto
    moreover have "c \<in> dom (objs st) \<and> parentOf st c = Some p"
      using assms(1) m by (simp add: storeInvariant_def)
    ultimately show "c \<in> dom (objs ?st') \<and> parentOf ?st' c = Some p"
      using par by auto
  qed
  have 3: "\<forall>c \<in> set (reflections ?st'). \<forall>p. parentOf ?st' c = Some p \<longrightarrow> c \<in> set (childrenOf ?st' p)"
  proof (intro allI ballI impI)
    fix c p assume m: "c \<in> set (reflections ?st')" and pp: "parentOf ?st' c = Some p"
    then have "c \<noteq> i" using nt by auto
    then have "parentOf st c = Some p" using pp par by simp
    moreover have "c \<in> set (reflections st)" using m by simp
    moreover have "\<forall>c \<in> set (reflections st). \<forall>p. parentOf st c = Some p \<longrightarrow> c \<in> set (childrenOf st p)"
      using assms(1) unfolding storeInvariant_def by blast
    ultimately have "c \<in> set (childrenOf st p)" by blast
    then show "c \<in> set (childrenOf ?st' p)" by (simp only: c)
  qed
  show ?thesis unfolding storeInvariant_def by (intro conjI 1 2 3)
qed

lemma registerSymbolId_fields:
  "objs (registerSymbolId st r s) = objs st"
  "reflectionChildren (registerSymbolId st r s) = reflectionChildren st"
  "reflections (registerSymbolId st r s) = reflections st"
  by (simp_all add: registerSymbolId_def)

lemma registerReflection_fields:
  assumes "objs st r = Some reflection"
  shows "objs (registerReflection st r symbolId filePath) = objs st"
    and "reflections (registerReflection st r symbolId filePath) = setKey r (reflections st)"
    and "reflectionChildren (registerReflection st r symbolId filePath) =
           (case parent reflection of
              None \<Rightarrow> reflectionChildren st
            | Some p \<Rightarrow> (reflectionChildren st)(p \<mapsto> childrenOf st p @ [r]))"
  using assms
  by (simp_all add: registerReflection_def Let_def registerSymbolId_fields childrenOf_def
        split: option.splits)

lemma set_setKey: "set (setKey i ks) = insert i (set ks)"
  by (auto simp: setKey_def set_insort_key)

lemma storeInvariant_registerReflection:
  assumes inv: "storeInvariant st" and obj: "isObject st r"
  shows "storeInvariant (registerReflection st r symbolId filePath)" (is "storeInvariant ?st'")
proof -
  obtain reflection where r: "objs st r = Some reflection"
    using obj by (auto simp: isObject_def)
  note f = registerReflection_fields [OF r, of symbolId filePath]
  have par: "parentOf ?st' x = parentOf st x" for x by (simp add: parentOf_def f)
  have pr: "parentOf st r = parent reflection" by (simp add: parentOf_def r)
  have t: "set (reflections ?st') = insert r (set (reflections st))" by (simp add: f set_setKey)
  have c: "set (childrenOf ?st' p) =
             (if parent reflection = Some p then insert r (set (childrenOf st p))
              else set (childrenOf st p))" for p
    by (auto simp: childrenOf_def f split: option.splits)
  have i1: "\<forall>c \<in> set (reflections st). c \<in> dom (objs st)"
    and i2: "\<forall>p. \<forall>c \<in> set (childrenOf st p). c \<in> dom (objs st) \<and> parentOf st c = Some p"
    and i3: "\<forall>c \<in> set (reflections st). \<forall>p. parentOf st c = Some p \<longrightarrow> c \<in> set (childrenOf st p)"
    using inv unfolding storeInvariant_def by blast+
  have 1: "\<forall>c \<in> set (reflections ?st'). c \<in> dom (objs ?st')"
    using i1 r by (auto simp: f set_setKey)
  have 2: "\<forall>p. \<forall>c \<in> set (childrenOf ?st' p). c \<in> dom (objs ?st') \<and> parentOf ?st' c = Some p"
    using i2 r pr by (auto simp: c f par split: if_splits)
  have 3: "\<forall>c \<in> set (reflections ?st'). \<forall>p. parentOf ?st' c = Some p \<longrightarrow> c \<in> set (childrenOf ?st' p)"
    using i3 pr by (auto simp: c t par)
  show ?thesis unfolding storeInvariant_def by (intro conjI 1 2 3)
qed

lemma parent_addChild: "parent (addChild p i c) = parent p"
  by (simp add: addChild_def)

lemma move_step:
  assumes ne: "source \<noteq> tgt"
    and inv: "mergeInvariant st source (childId # rest)"
    and g: "getReflectionById st childId = Some childRefl"
    and ps: "parent childRefl = Some source"
    and st1: "st1 = st\<lparr> objs := (objs st)(childId \<mapsto> childRefl\<lparr> parent := Some tgt \<rparr>),
                        reflectionChildren :=
                          (reflectionChildren st)(tgt \<mapsto> childrenOf st tgt @ [childId]) \<rparr>"
    and st2: "st2 = (case objs st1 tgt of
                       None \<Rightarrow> st1
                     | Some t \<Rightarrow> st1\<lparr> objs := (objs st1)(tgt \<mapsto> addChild t childId (childRefl\<lparr> parent := Some tgt \<rparr>)) \<rparr>)"
  shows "mergeInvariant st2 source rest"
proof -
  have o: "objs st childId = Some childRefl" and m: "childId \<in> set (reflections st)"
    using g by (auto simp: getReflectionById_def split: if_splits)
  have t: "reflections st2 = reflections st"
    by (simp add: st2 st1 split: option.splits)
  have d: "dom (objs st2) = dom (objs st)"
    using o by (auto simp: st2 st1 split: option.splits if_splits)
  have c: "childrenOf st2 p = (if p = tgt then childrenOf st tgt @ [childId] else childrenOf st p)" for p
    by (simp add: st2 st1 childrenOf_def split: option.splits)
  have par: "parentOf st2 x = (if x = childId then Some tgt else parentOf st x)" for x
    by (auto simp: st2 st1 parentOf_def parent_addChild split: option.splits)
  have i1: "\<forall>c \<in> set (reflections st). c \<in> dom (objs st)"
    and i2: "\<forall>p. \<forall>c \<in> set (childrenOf st p). c \<in> dom (objs st) \<and> (p \<noteq> source \<longrightarrow> parentOf st c = Some p)"
    and i3: "\<forall>c \<in> set (reflections st). \<forall>p. parentOf st c = Some p \<longrightarrow>
          (if p = source then c \<in> set (childId # rest) else c \<in> set (childrenOf st p))"
    using inv unfolding mergeInvariant_def by blast+
  have pc: "parentOf st childId = Some source" by (simp add: parentOf_def o ps)
  have 1: "\<forall>c \<in> set (reflections st2). c \<in> dom (objs st2)"
    using i1 by (simp add: t d)
  have 2: "\<forall>p. \<forall>c \<in> set (childrenOf st2 p). c \<in> dom (objs st2) \<and> (p \<noteq> source \<longrightarrow> parentOf st2 c = Some p)"
  proof (intro allI ballI)
    fix p x assume x: "x \<in> set (childrenOf st2 p)"
    show "x \<in> dom (objs st2) \<and> (p \<noteq> source \<longrightarrow> parentOf st2 x = Some p)"
    proof (cases "x = childId")
      case True
      have "p \<noteq> source \<Longrightarrow> p = tgt"
      proof (rule ccontr)
        assume a: "p \<noteq> source" "p \<noteq> tgt"
        then have "x \<in> set (childrenOf st p)" using x by (simp add: c)
        then have "parentOf st x = Some p" using i2 a by blast
        then show False using True pc a by simp
      qed
      then show ?thesis using True o by (auto simp: d par)
    next
      case False
      then have "x \<in> set (childrenOf st p)" using x by (auto simp: c split: if_splits)
      then show ?thesis using i2 False by (simp add: d par)
    qed
  qed
  have 3: "\<forall>c \<in> set (reflections st2). \<forall>p. parentOf st2 c = Some p \<longrightarrow>
          (if p = source then c \<in> set rest else c \<in> set (childrenOf st2 p))"
  proof (intro allI ballI impI)
    fix x p assume x: "x \<in> set (reflections st2)" and p: "parentOf st2 x = Some p"
    show "if p = source then x \<in> set rest else x \<in> set (childrenOf st2 p)"
    proof (cases "x = childId")
      case True
      then have "p = tgt" using p by (simp add: par)
      then show ?thesis using True ne by (simp add: c)
    next
      case False
      then have "parentOf st x = Some p" using p by (simp add: par)
      moreover have "x \<in> set (reflections st)" using x by (simp add: t)
      ultimately have "if p = source then x \<in> set (childId # rest) else x \<in> set (childrenOf st p)"
        using i3 by blast
      then show ?thesis using False by (auto simp: c split: if_splits)
    qed
  qed
  show ?thesis unfolding mergeInvariant_def by (intro conjI 1 2 3)
qed

lemma skip_step:
  assumes inv: "mergeInvariant st source (childId # rest)"
    and g: "case getReflectionById st childId of None \<Rightarrow> True | Some ch \<Rightarrow> parent ch \<noteq> Some source"
  shows "mergeInvariant st source rest"
proof -
  have i1: "\<forall>c \<in> set (reflections st). c \<in> dom (objs st)"
    and i3: "\<forall>c \<in> set (reflections st). \<forall>p. parentOf st c = Some p \<longrightarrow>
          (if p = source then c \<in> set (childId # rest) else c \<in> set (childrenOf st p))"
    using inv unfolding mergeInvariant_def by blast+
  have "\<not> (childId \<in> set (reflections st) \<and> parentOf st childId = Some source)"
    using g by (auto simp: getReflectionById_def parentOf_def split: option.splits if_splits)
  then have "\<forall>c \<in> set (reflections st). \<forall>p. parentOf st c = Some p \<longrightarrow>
          (if p = source then c \<in> set rest else c \<in> set (childrenOf st p))"
    using i3 by (metis set_ConsD)
  then show ?thesis using inv unfolding mergeInvariant_def by blast
qed

lemma moveChildren_invariant:
  "source \<noteq> tgt \<Longrightarrow> mergeInvariant st source cs \<Longrightarrow>
   mergeInvariant (moveChildren st source tgt cs) source []"
proof (induction cs arbitrary: st)
  case Nil
  then show ?case by simp
next
  case (Cons childId rest)
  show ?case
  proof (cases "getReflectionById st childId")
    case None
    then have "mergeInvariant st source rest"
      using skip_step [OF Cons.prems(2)] by simp
    then show ?thesis using Cons.IH [OF Cons.prems(1)] None by simp
  next
    case (Some childRefl)
    show ?thesis
    proof (cases "parent childRefl = Some source")
      case False
      then have "mergeInvariant st source rest"
        using skip_step [OF Cons.prems(2)] Some by simp
      then show ?thesis using Cons.IH [OF Cons.prems(1)] Some False by simp
    next
      case True
      have "mergeInvariant
              (case objs (st\<lparr> objs := (objs st)(childId \<mapsto> childRefl\<lparr> parent := Some tgt \<rparr>),
                        reflectionChildren :=
                          (reflectionChildren st)(tgt \<mapsto> childrenOf st tgt @ [childId]) \<rparr>) tgt of
                 None \<Rightarrow> st\<lparr> objs := (objs st)(childId \<mapsto> childRefl\<lparr> parent := Some tgt \<rparr>),
                        reflectionChildren :=
                          (reflectionChildren st)(tgt \<mapsto> childrenOf st tgt @ [childId]) \<rparr>
               | Some t \<Rightarrow> (st\<lparr> objs := (objs st)(childId \<mapsto> childRefl\<lparr> parent := Some tgt \<rparr>),
                        reflectionChildren :=
                          (reflectionChildren st)(tgt \<mapsto> childrenOf st tgt @ [childId]) \<rparr>)
                    \<lparr> objs := (objs (st\<lparr> objs := (objs st)(childId \<mapsto> childRefl\<lparr> parent := Some tgt \<rparr>),
                        reflectionChildren :=
                          (reflectionChildren st)(tgt \<mapsto> childrenOf st tgt @ [childId]) \<rparr>))
                         (tgt \<mapsto> addChild t childId (childRefl\<lparr> parent := Some tgt \<rparr>)) \<rparr>)
              source rest"
        by (rule move_step [OF Cons.prems(1) Cons.prems(2) Some True refl refl])
      from Cons.IH [OF Cons.prems(1) this] show ?thesis
        using Some True by (simp add: Let_def)
    qed
  qed
qed

lemma moveChildren_noop:
  "\<forall>c \<in> set cs. (case getReflectionById st c of None \<Rightarrow> True | Some ch \<Rightarrow> parent ch \<noteq> Some source) \<Longrightarrow>
   moveChildren st source tgt cs = st"
proof (induction cs)
  case Nil
  then show ?case by simp
next
  case (Cons c cs)
  then show ?case by (cases "getReflectionById st c") simp_all
qed

lemma mergeInvariant_start:
  assumes "storeInvariant st"
  shows "mergeInvariant st source (childrenOf st source)"
proof -
  have i1: "\<forall>c \<in> set (reflections st). c \<in> dom (objs st)"
    and i2: "\<forall>p. \<forall>c \<in> set (childrenOf st p). c \<in> dom (objs st) \<and> parentOf st c = Some p"
    and i3: "\<forall>c \<in> set (reflections st). \<forall>p. parentOf st c = Some p \<longrightarrow> c \<in> set (childrenOf st p)"
    using assms unfolding storeInvariant_def by blast+
  have 2: "\<forall>p. \<forall>c \<in> set (childrenOf st p). c \<in> dom (objs st) \<and> (p \<noteq> source \<longrightarrow> parentOf st c = Some p)"
    using i2 by blast
  have 3: "\<forall>c \<in> set (reflections st). \<forall>p. parentOf st c = Some p \<longrightarrow>
          (if p = source then c \<in> set (childrenOf st source) else c \<in> set (childrenOf st p))"
    using i3 by simp
  show ?thesis unfolding mergeInvariant_def by (intro conjI i1 2 3)
qed

lemma mergeInvariant_none_to_move:
  assumes inv: "storeInvariant st"
    and none: "\<forall>c \<in> set (childrenOf st source).
                 (case getReflectionById st c of None \<Rightarrow> True | Some ch \<Rightarrow> parent ch \<noteq> Some source)"
  shows "mergeInvariant st source []"
proof -
  have i1: "\<forall>c \<in> set (reflections st). c \<in> dom (objs st)"
    and i2: "\<forall>p. \<forall>c \<in> set (childrenOf st p). c \<in> dom (objs st) \<and> parentOf st c = Some p"
    and i3: "\<forall>c \<in> set (reflections st). \<forall>p. parentOf st c = Some p \<longrightarrow> c \<in> set (childrenOf st p)"
    using inv unfolding storeInvariant_def by blast+
  have "\<not> (c \<in> set (reflections st) \<and> parentOf st c = Some source)" for c
  proof
    assume a: "c \<in> set (reflections st) \<and> parentOf st c = Some source"
    then have "c \<in> set (childrenOf st source)" using i3 by blast
    then have "case getReflectionById st c of None \<Rightarrow> True | Some ch \<Rightarrow> parent ch \<noteq> Some source"
      using none by blast
    then show False using a
      by (auto simp: getReflectionById_def parentOf_def split: option.splits)
  qed
  then have 3: "\<forall>c \<in> set (reflections st). \<forall>p. parentOf st c = Some p \<longrightarrow>
          (if p = source then c \<in> set [] else c \<in> set (childrenOf st p))"
    using i3 by auto
  have 2: "\<forall>p. \<forall>c \<in> set (childrenOf st p). c \<in> dom (objs st) \<and> (p \<noteq> source \<longrightarrow> parentOf st c = Some p)"
    using i2 by blast
  show ?thesis unfolding mergeInvariant_def by (intro conjI i1 2 3)
qed

lemma storeInvariant_after_loop:
  assumes "mergeInvariant st source []"
  shows "storeInvariant (st\<lparr> reflectionChildren := (reflectionChildren st)(source := None) \<rparr>)"
    (is "storeInvariant ?st'")
proof -
  have c: "childrenOf ?st' p = (if p = source then [] else childrenOf st p)" for p
    by (simp add: childrenOf_def)
  have par: "parentOf ?st' x = parentOf st x" for x by (simp add: parentOf_def)
  have i1: "\<forall>c \<in> set (reflections st). c \<in> dom (objs st)"
    and i2: "\<forall>p. \<forall>c \<in> set (childrenOf st p). c \<in> dom (objs st) \<and> (p \<noteq> source \<longrightarrow> parentOf st c = Some p)"
    and i3: "\<forall>c \<in> set (reflections st). \<forall>p. parentOf st c = Some p \<longrightarrow>
          (if p = source then c \<in> set [] else c \<in> set (childrenOf st p))"
    using assms unfolding mergeInvariant_def by blast+
  have 1: "\<forall>c \<in> set (reflections ?st'). c \<in> dom (objs ?st')" using i1 by simp
  have 2: "\<forall>p. \<forall>c \<in> set (childrenOf ?st' p). c \<in> dom (objs ?st') \<and> parentOf ?st' c = Some p"
    using i2 by (auto simp: c par split: if_splits)
  have 3: "\<forall>c \<in> set (reflections ?st'). \<forall>p. parentOf ?st' c = Some p \<longrightarrow> c \<in> set (childrenOf ?st' p)"
  proof (intro ballI allI impI)
    fix x p assume "x \<in> set (reflections ?st')" "parentOf ?st' x = Some p"
    then have "x \<in> set (reflections st)" "parentOf st x = Some p" by (simp_all add: par)
    then have "if p = source then x \<in> set [] else x \<in> set (childrenOf st p)" using i3 by blast
    then show "x \<in> set (childrenOf ?st' p)" by (auto simp: c split: if_splits)
  qed
  show ?thesis unfolding storeInvariant_def by (intro conjI 1 2 3)
qed

lemma storeInvariant_mergeMove:
  assumes inv: "storeInvariant st" and fin: "\<not> mergeLoopsForever st source tgt"
  shows "storeInvariant (mergeMove st source tgt)"
proof -
  define st2 where "st2 = st\<lparr> referenceGraph := None,
      reflectionChildren := (reflectionChildren st)(tgt \<mapsto> childrenOf st tgt) \<rparr>"
  define st3 where "st3 = moveChildren st2 source tgt (childrenOf st2 source)"
  have c2: "childrenOf st2 p = childrenOf st p" for p by (simp add: st2_def childrenOf_def)
  have g2: "getReflectionById st2 c = getReflectionById st c" for c
    by (simp add: st2_def getReflectionById_def)
  have mm: "mergeMove st source tgt =
              st3\<lparr> reflectionChildren := (reflectionChildren st3)(source := None) \<rparr>"
    by (simp add: mergeMove_def Let_def st3_def st2_def childrenOf_def)
  have "shrinks st st2"
    unfolding shrinks_def by (simp add: c2) (simp add: st2_def parentOf_def)
  then have inv2: "storeInvariant st2" using inv shrinks_invariant by blast
  have "mergeInvariant st3 source []"
  proof (cases "source = tgt")
    case False
    then show ?thesis
      unfolding st3_def
      using moveChildren_invariant [OF False mergeInvariant_start [OF inv2]] by simp
  next
    case True
    have none: "\<forall>c \<in> set (childrenOf st2 source).
                 (case getReflectionById st2 c of None \<Rightarrow> True | Some ch \<Rightarrow> parent ch \<noteq> Some source)"
    proof
      fix c assume "c \<in> set (childrenOf st2 source)"
      then have "c \<in> set (childrenOf st source)" by (simp add: c2)
      then have "\<not> (case getReflectionById st c of None \<Rightarrow> False | Some ch \<Rightarrow> parent ch = Some source)"
        using fin True unfolding mergeLoopsForever_def by blast
      then show "case getReflectionById st2 c of None \<Rightarrow> True | Some ch \<Rightarrow> parent ch \<noteq> Some source"
        by (simp add: g2 split: option.splits)
    qed
    then have "st3 = st2" unfolding st3_def by (rule moveChildren_noop)
    then show ?thesis using mergeInvariant_none_to_move [OF inv2 none] by simp
  qed
  then show ?thesis unfolding mm by (rule storeInvariant_after_loop)
qed

lemma clearGroupings_shrinks: "shrinks st (clearGroupings st tgt)"
  unfolding shrinks_def
  by (auto simp: clearGroupings_def parentOf_def childrenOf_def split: option.splits)

lemma storeInvariant_mergeReflections:
  assumes inv: "storeInvariant st" and m: "mergeReflections fuel st source tgt = Some st'"
  shows "storeInvariant st'"
proof -
  have fin: "\<not> mergeLoopsForever st source tgt"
    using m by (auto simp: mergeReflections_def split: if_splits)
  then obtain st5 where r: "removeReflection fuel (mergeMove st source tgt) source = Some st5"
      and res: "st' = clearGroupings st5 tgt"
    using m by (auto simp: mergeReflections_def split: option.splits)
  have "storeInvariant st5"
    using removal_shrinks(1) [OF r] storeInvariant_mergeMove [OF inv fin] shrinks_invariant by blast
  then show ?thesis unfolding res using clearGroupings_shrinks shrinks_invariant by blast
qed

lemma storeInvariant_newReferenceReflection:
  "storeInvariant st \<Longrightarrow> \<not> isObject st i \<Longrightarrow> storeInvariant (newReferenceReflection st i nm tgt par)"
  unfolding newReferenceReflection_def by (rule storeInvariant_newReflection)

lemma attachChild_shrinks: "shrinks st (attachChild st p c)"
  unfolding shrinks_def
  by (auto simp: attachChild_def parentOf_def childrenOf_def parent_addChild split: option.splits)

lemma applyOp_invariant:
  assumes "storeInvariant st" "applyOp fuel st op = Some st'"
  shows "storeInvariant st'"
proof (cases op)
  case (NewReflection i v nm k par)
  then show ?thesis
    using assms storeInvariant_newReflection [of st i]
    by (auto simp: newReflection_def split: if_splits)
next
  case (NewReferenceReflection i nm tgt par)
  then show ?thesis
    using assms storeInvariant_newReferenceReflection [of st i]
    by (auto split: if_splits)
next
  case (AddChild p c)
  then have "st' = attachChild st p c" using assms(2) by (auto split: if_splits)
  then show ?thesis using attachChild_shrinks assms(1) shrinks_invariant by blast
next
  case (RegisterReflection r symbolId filePath)
  then show ?thesis
    using assms storeInvariant_registerReflection [of st r]
    by (auto split: if_splits)
next
  case (RemoveReflection r)
  then have "removeReflection fuel st r = Some st'" using assms(2) by (auto split: if_splits)
  then show ?thesis using removal_shrinks(1) assms(1) shrinks_invariant by blast
next
  case (MergeReflections source tgt)
  then have "mergeReflections fuel st source tgt = Some st'"
    using assms(2) by (auto split: if_splits)
  then show ?thesis using storeInvariant_mergeReflections [OF assms(1)] by blast
qed

lemma runOps_invariant:
  "storeInvariant st \<Longrightarrow> runOps fuel st ops = Some st' \<Longrightarrow> storeInvariant st'"
proof (induction ops arbitrary: st)
  case Nil
  then show ?case by simp
next
  case (Cons op ops)
  then obtain st1 where a: "applyOp fuel st op = Some st1" and b: "runOps fuel st1 ops = Some st'"
    by (auto split: option.splits)
  show ?case using Cons.IH [OF applyOp_invariant [OF Cons.prems(1) a] b] .
qed

text \<open>
  Claim C9. Start from a new project and apply any sequence of constructor calls,
  \<open>registerReflection\<close>, \<open>removeReflection\<close> and \<open>mergeReflections\<close> that runs to its end. Then
  for every reflection \<open>c\<close> of the id table and every \<open>p\<close>, the id of \<open>c\<close> is in the children
  index under \<open>p\<close> exactly when the parent of \<open>c\<close> is \<open>p\<close>.
\<close>

theorem children_index_consistent:
  assumes "runOps fuel (newProjectReflection i nm registry) ops = Some st"
  shows "childrenIndexConsistent st"
  using runOps_invariant [OF storeInvariant_new assms] by (rule storeInvariant_consistent)

theorem children_index_consistent_witness:
  "map_option reflections (runOps 4 (newProjectReflection 1 ''R'' newFileRegistry) exampleOps)
     = Some [1, 3, 4] \<and>
   childrenIndexConsistent (the (runOps 4 (newProjectReflection 1 ''R'' newFileRegistry) exampleOps))"
proof -
  have 1: "map_option reflections (runOps 4 (newProjectReflection 1 ''R'' newFileRegistry) exampleOps)
             = Some [1, 3, 4]"
    by code_simp
  then obtain st where 2: "runOps 4 (newProjectReflection 1 ''R'' newFileRegistry) exampleOps = Some st"
    by auto
  show ?thesis using 1 children_index_consistent [OF 2] 2 by simp
qed

section \<open>Properties of cascading removal\<close>

lemma cascades_refl:
  "referenceGraph st \<noteq> None \<Longrightarrow> \<forall>c \<in> set (reflections st). c \<in> dom (objs st) \<Longrightarrow> cascades st st"
  by (simp add: cascades_def)

lemma cascades_trans:
  assumes ab: "cascades a b" and bc: "cascades b c"
  shows "cascades a c"
proof -
  have sub: "set (reflections b) \<subseteq> set (reflections a)" "set (reflections c) \<subseteq> set (reflections b)"
    using ab bc by (simp_all add: cascades_def)
  have g: "referrers c t = referrers a t \<or>
          (referrers c t = [] \<and> (\<forall>x \<in> set (referrers a t). x \<notin> set (reflections c)))" for t
  proof -
    have 1: "referrers b t = referrers a t \<or>
          (referrers b t = [] \<and> (\<forall>x \<in> set (referrers a t). x \<notin> set (reflections b)))"
      using ab by (simp add: cascades_def)
    have 2: "referrers c t = referrers b t \<or>
          (referrers c t = [] \<and> (\<forall>x \<in> set (referrers b t). x \<notin> set (reflections c)))"
      using bc by (simp add: cascades_def)
    from 1 show ?thesis
    proof
      assume "referrers b t = referrers a t"
      then show ?thesis using 2 by auto
    next
      assume d: "referrers b t = [] \<and> (\<forall>x \<in> set (referrers a t). x \<notin> set (reflections b))"
      then have "referrers c t = []" using 2 by auto
      then show ?thesis using d sub by auto
    qed
  qed
  have r: "\<forall>t \<in> set (reflections a). t \<notin> set (reflections c) \<longrightarrow>
          (\<forall>x \<in> set (referrers a t). x \<notin> set (reflections c))"
  proof (intro ballI impI)
    fix t x assume t: "t \<in> set (reflections a)" "t \<notin> set (reflections c)" and x: "x \<in> set (referrers a t)"
    have 1: "referrers b t = referrers a t \<or>
          (referrers b t = [] \<and> (\<forall>x \<in> set (referrers a t). x \<notin> set (reflections b)))"
      using ab by (simp add: cascades_def)
    show "x \<notin> set (reflections c)"
    proof (cases "t \<in> set (reflections b)")
      case False
      then have "x \<notin> set (reflections b)" using ab t(1) x by (simp add: cascades_def)
      then show ?thesis using sub by auto
    next
      case True
      then have 3: "\<forall>y \<in> set (referrers b t). y \<notin> set (reflections c)"
        using bc t(2) by (simp add: cascades_def)
      from 1 show ?thesis
      proof
        assume "referrers b t = referrers a t"
        then show ?thesis using 3 x by simp
      next
        assume "referrers b t = [] \<and> (\<forall>x \<in> set (referrers a t). x \<notin> set (reflections b))"
        then show ?thesis using x sub by auto
      qed
    qed
  qed
  have ch: "reflectionChildren c p = reflectionChildren a p \<or>
          (reflectionChildren c p = None \<and> p \<notin> set (reflections c))" for p
  proof -
    have 1: "reflectionChildren b p = reflectionChildren a p \<or>
          (reflectionChildren b p = None \<and> p \<notin> set (reflections b))"
      using ab by (simp add: cascades_def)
    have 2: "reflectionChildren c p = reflectionChildren b p \<or>
          (reflectionChildren c p = None \<and> p \<notin> set (reflections c))"
      using bc by (simp add: cascades_def)
    show ?thesis using 1 2 sub by auto
  qed
  have rt: "refersTo c ref t = refersTo a ref t" for ref t
    using ab bc by (simp add: cascades_def)
  have 1: "referenceGraph c \<noteq> None" using bc by (simp add: cascades_def)
  have 7: "\<forall>x \<in> set (reflections c). x \<in> dom (objs c)" using bc by (simp add: cascades_def)
  show ?thesis
    unfolding cascades_def
    using 1 g r ch sub rt 7 by (intro conjI allI) auto
qed

lemma detachSlot_reference:
  "variant (detachSlot p r property) = variant p" "target (detachSlot p r property) = target p"
  by (cases property; simp add: detachSlot_def removeChild_def)+

lemma referrers_cong:
  "referenceGraph st' = referenceGraph st \<Longrightarrow> referrers st' t = referrers st t"
  by (simp add: referrers_def)

lemma refersTo_cong: "objs st' = objs st \<Longrightarrow> refersTo st' ref t = refersTo st ref t"
  by (simp add: refersTo_def)

lemma cascades_same:
  assumes "referenceGraph st \<noteq> None" "\<forall>c \<in> set (reflections st). c \<in> dom (objs st)"
    and "referenceGraph st' = referenceGraph st" "reflections st' = reflections st"
    and "reflectionChildren st' = reflectionChildren st" "objs st' = objs st"
  shows "cascades st st'"
  unfolding cascades_def
  using assms by (simp add: referrers_cong [OF assms(3)] refersTo_cong [OF assms(6)])

lemma detachFromParent_fields:
  "referenceGraph (detachFromParent st r) = referenceGraph st"
  "reflectionChildren (detachFromParent st r) = reflectionChildren st"
  "dom (objs (detachFromParent st r)) = dom (objs st)"
  by (auto simp: detachFromParent_def split: option.splits prod.splits)

lemma detachFromParent_refersTo: "refersTo (detachFromParent st r) ref t = refersTo st ref t"
  by (auto simp: detachFromParent_def refersTo_def detachSlot_reference split: option.splits prod.splits)

lemma detachFromParent_cascades:
  assumes "referenceGraph st \<noteq> None" "\<forall>c \<in> set (reflections st). c \<in> dom (objs st)"
  shows "cascades st (detachFromParent st r)"
  unfolding cascades_def
  using assms
  by (simp add: detachFromParent_fields detachFromParent_reflections detachFromParent_refersTo
        referrers_cong [OF detachFromParent_fields(1)])

lemma getReferenceGraph_cached: "referenceGraph st \<noteq> None \<Longrightarrow> getReferenceGraph st = st"
  by (auto simp: getReferenceGraph_def split: option.splits)

lemma unregisterSymbol_graph: "referenceGraph (unregisterSymbol st r) = referenceGraph st"
  by (simp add: unregisterSymbol_def Let_def split: option.splits SymbolEntry.splits)

lemma after_referrers_cascades:
  assumes c: "cascades st1 st2"
    and gone: "\<forall>x \<in> set (referrers st1 r). x \<notin> set (reflections st2)"
  shows "cascades st1 (st2\<lparr> referenceGraph :=
                            map_option (\<lambda>graph. graph(r := None)) (referenceGraph st2) \<rparr>)"
    (is "cascades st1 ?st3")
proof -
  have g2: "referenceGraph st2 \<noteq> None" using c by (simp add: cascades_def)
  have r3: "referrers ?st3 t = (if t = r then [] else referrers st2 t)" for t
    using g2 by (auto simp: referrers_def split: option.splits)
  have g: "referrers ?st3 t = referrers st1 t \<or>
          (referrers ?st3 t = [] \<and> (\<forall>x \<in> set (referrers st1 t). x \<notin> set (reflections ?st3)))" for t
  proof (cases "t = r")
    case True
    then show ?thesis using gone by (simp add: r3)
  next
    case False
    have "referrers st2 t = referrers st1 t \<or>
          (referrers st2 t = [] \<and> (\<forall>x \<in> set (referrers st1 t). x \<notin> set (reflections st2)))"
      using c by (simp add: cascades_def)
    then show ?thesis using False by (simp add: r3)
  qed
  have rt: "refersTo ?st3 ref t = refersTo st1 ref t" for ref t
    using c by (simp add: cascades_def refersTo_def)
  show ?thesis
    unfolding cascades_def
    using c g2 g rt by (intro conjI allI) (auto simp: cascades_def)
qed

lemma finish_cascades:
  assumes c: "cascades st3 st4" and e: "referrers st3 r = []"
  shows "cascades st3 (unregisterSymbol (st4\<lparr> reflectionChildren := (reflectionChildren st4)(r := None) \<rparr>) r)"
    (is "cascades st3 ?st5")
proof -
  have t5: "set (reflections ?st5) = set (reflections st4) - {r}"
    by (auto simp: unregisterSymbol_fields deleteKey_def)
  have g5: "referenceGraph ?st5 = referenceGraph st4" by (simp add: unregisterSymbol_graph)
  have r5: "referrers ?st5 t = referrers st4 t" for t by (simp add: referrers_def g5)
  have o5: "objs ?st5 = objs st4" by (simp add: unregisterSymbol_fields)
  have c5: "reflectionChildren ?st5 = (reflectionChildren st4)(r := None)"
    by (simp add: unregisterSymbol_fields)
  have "referrers st4 r = referrers st3 r \<or> referrers st4 r = []"
    using c unfolding cascades_def by blast
  then have e4: "referrers st4 r = []" using e by auto
  have g: "referrers ?st5 t = referrers st3 t \<or>
          (referrers ?st5 t = [] \<and> (\<forall>x \<in> set (referrers st3 t). x \<notin> set (reflections ?st5)))" for t
  proof -
    have "referrers st4 t = referrers st3 t \<or>
          (referrers st4 t = [] \<and> (\<forall>x \<in> set (referrers st3 t). x \<notin> set (reflections st4)))"
      using c by (simp add: cascades_def)
    then show ?thesis by (auto simp: r5 t5)
  qed
  have rm: "\<forall>t \<in> set (reflections st3). t \<notin> set (reflections ?st5) \<longrightarrow>
          (\<forall>x \<in> set (referrers st3 t). x \<notin> set (reflections ?st5))"
  proof (intro ballI impI)
    fix t x assume t: "t \<in> set (reflections st3)" "t \<notin> set (reflections ?st5)"
      and x: "x \<in> set (referrers st3 t)"
    show "x \<notin> set (reflections ?st5)"
    proof (cases "t \<in> set (reflections st4)")
      case True
      then have "t = r" using t(2) by (simp add: t5)
      then show ?thesis using x e by simp
    next
      case False
      then have "x \<notin> set (reflections st4)" using c t(1) x by (simp add: cascades_def)
      then show ?thesis by (simp add: t5)
    qed
  qed
  have ch: "reflectionChildren ?st5 p = reflectionChildren st3 p \<or>
          (reflectionChildren ?st5 p = None \<and> p \<notin> set (reflections ?st5))" for p
  proof -
    have "reflectionChildren st4 p = reflectionChildren st3 p \<or>
          (reflectionChildren st4 p = None \<and> p \<notin> set (reflections st4))"
      using c by (simp add: cascades_def)
    then show ?thesis by (auto simp: c5 t5)
  qed
  have rt: "refersTo ?st5 ref t = refersTo st3 ref t" for ref t
    using c by (simp add: cascades_def refersTo_def o5)
  have 1: "referenceGraph ?st5 \<noteq> None" using c by (simp add: g5 cascades_def)
  have 5: "set (reflections ?st5) \<subseteq> set (reflections st3)" using c by (auto simp: t5 cascades_def)
  have 7: "\<forall>x \<in> set (reflections ?st5). x \<in> dom (objs ?st5)"
    using c by (auto simp: t5 o5 cascades_def)
  show ?thesis
    unfolding cascades_def
    using 1 g rm ch 5 rt 7 by (intro conjI allI) auto
qed

lemma cascades_pre:
  "cascades st st' \<Longrightarrow> referenceGraph st' \<noteq> None \<and> (\<forall>c \<in> set (reflections st'). c \<in> dom (objs st'))"
  by (simp add: cascades_def)

lemma removal_cascades:
  "referenceGraph st \<noteq> None \<and> (\<forall>c \<in> set (reflections st). c \<in> dom (objs st)) \<Longrightarrow>
     removeReflection n st r = Some st' \<Longrightarrow> cascades st st'"
  "referenceGraph st \<noteq> None \<and> (\<forall>c \<in> set (reflections st). c \<in> dom (objs st)) \<Longrightarrow>
     removeReflection_inner n st r = Some st' \<Longrightarrow> cascades st st'"
  "referenceGraph st \<noteq> None \<and> (\<forall>c \<in> set (reflections st). c \<in> dom (objs st)) \<Longrightarrow>
     removeReferrers n st is = Some st' \<Longrightarrow>
     cascades st st' \<and> (\<forall>x \<in> set is. x \<notin> set (reflections st'))"
  "referenceGraph st \<noteq> None \<and> (\<forall>c \<in> set (reflections st). c \<in> dom (objs st)) \<Longrightarrow>
     removeChildren n st r cs = Some st' \<Longrightarrow> cascades st st'"
proof (induction n st r and n st r and n st "is" and n st r cs
       arbitrary: st' and st' and st' and st'
       rule: removeReflection_removeReflection_inner_removeReferrers_removeChildren.induct)
  case (1 st r)
  then show ?case by simp
next
  case (2 n st r)
  from "2.prems"(2) obtain st1 where a: "removeReflection_inner n st r = Some st1"
      and b: "st' = detachFromParent st1 r"
    by (auto split: option.splits)
  have c1: "cascades st st1" using "2.IH" [OF "2.prems"(1) a] .
  have "cascades st1 st'"
    unfolding b using cascades_pre [OF c1] by (intro detachFromParent_cascades) simp_all
  then show ?case using c1 cascades_trans by blast
next
  case (3 st r)
  then show ?case by simp
next
  case (4 n st r)
  define st1 where "st1 = getReferenceGraph (st\<lparr> files := fr_removeReflection (files st) r \<rparr>)"
  have st1': "st1 = st\<lparr> files := fr_removeReflection (files st) r \<rparr>"
    unfolding st1_def using "4.prems"(1) by (intro getReferenceGraph_cached) simp
  from "4.prems"(2) obtain st2 where a: "removeReferrers n st1 (referrers st1 r) = Some st2"
    by (auto simp: st1_def Let_def split: option.splits)
  define st3 where "st3 = st2\<lparr> referenceGraph :=
                            map_option (\<lambda>graph. graph(r := None)) (referenceGraph st2) \<rparr>"
  from "4.prems"(2) a obtain st4 where b: "removeChildren n st3 r (childrenOf st3 r) = Some st4"
      and c: "st' = unregisterSymbol (st4\<lparr> reflectionChildren := (reflectionChildren st4)(r := None) \<rparr>) r"
    by (auto simp: st1_def [symmetric] st3_def [symmetric] Let_def split: option.splits)
  have c01: "cascades st st1"
    using "4.prems"(1) by (intro cascades_same) (simp_all add: st1')
  have pre1: "referenceGraph st1 \<noteq> None \<and> (\<forall>c \<in> set (reflections st1). c \<in> dom (objs st1))"
    using cascades_pre [OF c01] .
  have c12: "cascades st1 st2" and gone: "\<forall>x \<in> set (referrers st1 r). x \<notin> set (reflections st2)"
    using "4.IH"(1) [OF st1_def pre1 a] by simp_all
  have c13: "cascades st1 st3" unfolding st3_def by (rule after_referrers_cascades [OF c12 gone])
  have e3: "referrers st3 r = []"
    using cascades_pre [OF c12] by (auto simp: st3_def referrers_def split: option.splits)
  have c34: "cascades st3 st4"
    using "4.IH"(2) [OF st1_def a st3_def cascades_pre [OF c13] b] .
  have "cascades st3 st'" unfolding c by (rule finish_cascades [OF c34 e3])
  then show ?case using c01 c13 cascades_trans by blast
next
  case (5 n st)
  then show ?case by (simp add: cascades_refl)
next
  case (6 n st i "is")
  show ?case
  proof (cases "getReflectionById st i")
    case None
    then have rest: "removeReferrers n st is = Some st'" using "6.prems"(2) by simp
    have ih: "cascades st st'" "\<forall>x \<in> set is. x \<notin> set (reflections st')"
      using "6.IH"(1) [OF None "6.prems"(1) rest] by simp_all
    have "i \<notin> set (reflections st)"
      using None "6.prems"(1) by (auto simp: getReflectionById_def split: if_splits)
    then have "i \<notin> set (reflections st')" using ih(1) by (auto simp: cascades_def)
    then show ?thesis using ih by simp
  next
    case (Some ref)
    with "6.prems"(2) obtain st1 where a: "removeReflection n st i = Some st1"
        and b: "removeReferrers n st1 is = Some st'"
      by (auto split: option.splits)
    have c1: "cascades st st1" using "6.IH"(2) [OF Some "6.prems"(1) a] .
    have i1: "i \<notin> set (reflections st1)" using removal_shrinks(1) [OF a] by simp
    have c2: "cascades st1 st'" "\<forall>x \<in> set is. x \<notin> set (reflections st')"
      using "6.IH"(3) [OF Some a cascades_pre [OF c1] b] by simp_all
    have "i \<notin> set (reflections st')" using i1 c2(1) by (auto simp: cascades_def)
    then show ?thesis using c1 c2 cascades_trans by auto
  qed
next
  case (7 n st r)
  then show ?case by (simp add: cascades_refl)
next
  case (8 n st r c cs)
  show ?case
  proof (cases "getReflectionById st c")
    case None
    then show ?thesis using "8.IH"(1) "8.prems" by simp
  next
    case (Some child)
    show ?thesis
    proof (cases "parent child = Some r")
      case True
      with Some "8.prems"(2) obtain st1 where a: "removeReflection_inner n st c = Some st1"
          and b: "removeChildren n st1 r cs = Some st'"
        by (auto split: option.splits)
      have c1: "cascades st st1" using "8.IH"(2) [OF Some True "8.prems"(1) a] .
      have c2: "cascades st1 st'" using "8.IH"(3) [OF Some True a cascades_pre [OF c1] b] .
      show ?thesis using c1 c2 by (rule cascades_trans)
    next
      case False
      then show ?thesis using "8.IH"(4) [OF Some False "8.prems"(1)] Some "8.prems"(2) by simp
    qed
  qed
qed

lemma addReference_cong:
  assumes "objs st' = objs st" "reflections st' = reflections st"
  shows "addReference st' = addReference st"
proof -
  have g: "getReflectionById st' i = getReflectionById st i" for i
    by (simp add: getReflectionById_def assms)
  have t: "tryGetTargetReflection st' ref = tryGetTargetReflection st ref" for ref
    by (simp add: tryGetTargetReflection_def g cong: option.case_cong)
  show ?thesis by (intro ext) (simp add: addReference_def assms t cong: option.case_cong if_cong)
qed

lemma buildReferenceGraph_cong:
  assumes "objs st' = objs st" "reflections st' = reflections st"
  shows "buildReferenceGraph st' = buildReferenceGraph st"
  by (simp add: buildReferenceGraph_def addReference_cong [OF assms] assms)

lemma getReferenceGraph_files:
  "getReferenceGraph (st\<lparr> files := f \<rparr>) = (getReferenceGraph st)\<lparr> files := f \<rparr>"
  by (simp add: getReferenceGraph_def buildReferenceGraph_cong [of "st\<lparr> files := f \<rparr>" st]
           split: option.splits)

lemma getReferenceGraph_idem: "getReferenceGraph (getReferenceGraph st) = getReferenceGraph st"
  by (simp add: getReferenceGraph_def split: option.splits)

lemma files_getReferenceGraph: "files (getReferenceGraph st) = files st"
  by (simp add: getReferenceGraph_def split: option.splits)

lemma inner_cached:
  "removeReflection_inner n (getReferenceGraph st) r = removeReflection_inner n st r"
proof (cases n)
  case 0
  then show ?thesis by simp
next
  case (Suc m)
  have "getReferenceGraph ((getReferenceGraph st)\<lparr> files := fr_removeReflection (files (getReferenceGraph st)) r \<rparr>)
        = getReferenceGraph (st\<lparr> files := fr_removeReflection (files st) r \<rparr>)"
    by (simp add: getReferenceGraph_files getReferenceGraph_idem files_getReferenceGraph)
  then show ?thesis unfolding Suc removeReflection_inner.simps by simp
qed

lemma removeReflection_cached:
  "removeReflection n (getReferenceGraph st) r = Some st' \<longleftrightarrow> removeReflection n st r = Some st'"
proof (cases n)
  case 0
  then show ?thesis by simp
next
  case (Suc m)
  have o: "objs (getReferenceGraph st) = objs st" by (simp add: getReferenceGraph_fields)
  have d: "detachFromParent x r = detachFromParent x r" for x by simp
  show ?thesis unfolding Suc by (simp add: inner_cached)
qed

lemma addReference_lookup:
  "(case addReference st g i t of None \<Rightarrow> [] | Some refs \<Rightarrow> refs) =
     (case g t of None \<Rightarrow> [] | Some refs \<Rightarrow> refs) @
     (if refersTo st i t \<and> getReflectionById st t \<noteq> None then [i] else [])"
  by (auto simp: addReference_def refersTo_def tryGetTargetReflection_def split: option.splits)

lemma foldl_addReference_lookup:
  "set (case foldl (addReference st) g ks t of None \<Rightarrow> [] | Some refs \<Rightarrow> refs) =
     set (case g t of None \<Rightarrow> [] | Some refs \<Rightarrow> refs) \<union>
     {i \<in> set ks. refersTo st i t \<and> getReflectionById st t \<noteq> None}"
proof (induction ks arbitrary: g)
  case Nil
  then show ?case by simp
next
  case (Cons k ks)
  show ?case
    unfolding foldl_Cons Cons.IH addReference_lookup by auto
qed

lemma referrers_built:
  assumes "referenceGraph st = None"
  shows "set (referrers (getReferenceGraph st) t) =
           {i \<in> set (reflections st). refersTo st i t \<and> getReflectionById st t \<noteq> None}"
  using assms
  by (simp add: getReferenceGraph_def referrers_def buildReferenceGraph_def
        foldl_addReference_lookup)

lemma graphComplete_getReferenceGraph:
  assumes ok: "\<forall>c \<in> set (reflections st). c \<in> dom (objs st)" and gc: "graphComplete st"
  shows "graphComplete (getReferenceGraph st)"
proof (cases "referenceGraph st")
  case (Some g)
  then have "getReferenceGraph st = st" by (intro getReferenceGraph_cached) simp
  then show ?thesis using gc by simp
next
  case None
  have g: "referenceGraph (getReferenceGraph st) = Some (buildReferenceGraph st)"
    using None by (simp add: getReferenceGraph_def)
  have "ref \<in> set (referrers (getReferenceGraph st) t)"
    if "t \<in> set (reflections st)" "ref \<in> set (reflections st)" "refersTo st ref t" for t ref
  proof -
    have "getReflectionById st t \<noteq> None"
      using that(1) ok by (auto simp: getReflectionById_def)
    then show ?thesis using that by (simp add: referrers_built [OF None])
  qed
  then show ?thesis
    unfolding graphComplete_def g
    by (simp add: getReferenceGraph_fields refersTo_cong [OF getReferenceGraph_fields(1)])
qed

lemma cascades_graphComplete:
  assumes gc: "graphComplete st" and g: "referenceGraph st \<noteq> None" and c: "cascades st st'"
  shows "graphComplete st'"
proof -
  obtain graph where gr: "referenceGraph st = Some graph" using g by auto
  obtain graph' where gr': "referenceGraph st' = Some graph'" using c by (auto simp: cascades_def)
  have sub: "set (reflections st') \<subseteq> set (reflections st)" using c by (simp add: cascades_def)
  have "ref \<in> set (referrers st' t)"
    if t: "t \<in> set (reflections st')" and r: "ref \<in> set (reflections st')" and rt: "refersTo st' ref t"
    for t ref
  proof -
    have "refersTo st ref t" using rt c by (simp add: cascades_def)
    then have m: "ref \<in> set (referrers st t)"
      using gc t r sub unfolding graphComplete_def gr by auto
    have "referrers st' t = referrers st t \<or>
          (referrers st' t = [] \<and> (\<forall>x \<in> set (referrers st t). x \<notin> set (reflections st')))"
      using c unfolding cascades_def by blast
    then show ?thesis using m r by auto
  qed
  then show ?thesis unfolding graphComplete_def gr' by simp
qed

lemma removal_graph:
  assumes ok: "\<forall>c \<in> set (reflections st). c \<in> dom (objs st)"
    and rm: "removeReflection n st r = Some st'"
  shows "cascades (getReferenceGraph st) st'"
proof -
  have pre: "referenceGraph (getReferenceGraph st) \<noteq> None \<and>
             (\<forall>c \<in> set (reflections (getReferenceGraph st)). c \<in> dom (objs (getReferenceGraph st)))"
    using ok by (auto simp: getReferenceGraph_fields getReferenceGraph_def split: option.splits)
  have "removeReflection n (getReferenceGraph st) r = Some st'"
    using rm by (simp add: removeReflection_cached)
  then show ?thesis using removal_cascades(1) [OF pre] by blast
qed

lemma graphComplete_removeReflection:
  assumes ok: "\<forall>c \<in> set (reflections st). c \<in> dom (objs st)" and gc: "graphComplete st"
    and rm: "removeReflection n st r = Some st'"
  shows "graphComplete st'"
proof -
  have "referenceGraph (getReferenceGraph st) \<noteq> None"
    by (auto simp: getReferenceGraph_def split: option.splits)
  then show ?thesis
    using cascades_graphComplete [OF graphComplete_getReferenceGraph [OF ok gc] _ removal_graph [OF ok rm]]
    by blast
qed

lemma graphComplete_cong:
  assumes "referenceGraph st' = referenceGraph st" "reflections st' = reflections st"
    and "\<forall>ref \<in> set (reflections st). \<forall>t. refersTo st' ref t = refersTo st ref t"
    and "graphComplete st"
  shows "graphComplete st'"
  using assms
  unfolding graphComplete_def
  by (auto simp: referrers_cong [OF assms(1)] split: option.splits)

lemma graphComplete_uncached: "referenceGraph st = None \<Longrightarrow> graphComplete st"
  by (simp add: graphComplete_def)

lemma graphComplete_new_object:
  assumes inv: "storeInvariant st" and gc: "graphComplete st" and fresh: "\<not> isObject st i"
  shows "graphComplete (st\<lparr> objs := (objs st)(i \<mapsto> obj) \<rparr>)"
proof (rule graphComplete_cong [OF _ _ _ gc])
  show "\<forall>ref \<in> set (reflections st). \<forall>t.
          refersTo (st\<lparr> objs := (objs st)(i \<mapsto> obj) \<rparr>) ref t = refersTo st ref t"
  proof (intro ballI allI)
    fix ref t assume "ref \<in> set (reflections st)"
    then have "ref \<in> dom (objs st)" using inv unfolding storeInvariant_def by blast
    then have "ref \<noteq> i" using fresh by (auto simp: isObject_def)
    then show "refersTo (st\<lparr> objs := (objs st)(i \<mapsto> obj) \<rparr>) ref t = refersTo st ref t"
      by (simp add: refersTo_def)
  qed
qed simp_all

lemma addChild_reference: "variant (addChild p i c) = variant p" "target (addChild p i c) = target p"
  by (simp_all add: addChild_def)

lemma graphComplete_attachChild: "graphComplete st \<Longrightarrow> graphComplete (attachChild st p c)"
proof (rule graphComplete_cong)
  show "\<forall>ref \<in> set (reflections st). \<forall>t. refersTo (attachChild st p c) ref t = refersTo st ref t"
    by (auto simp: attachChild_def refersTo_def addChild_reference split: option.splits)
qed (simp_all add: attachChild_def split: option.splits)

lemma graphComplete_clearGroupings: "graphComplete st \<Longrightarrow> graphComplete (clearGroupings st tgt)"
proof (rule graphComplete_cong)
  show "\<forall>ref \<in> set (reflections st). \<forall>t. refersTo (clearGroupings st tgt) ref t = refersTo st ref t"
    by (auto simp: clearGroupings_def refersTo_def split: option.splits)
qed (simp_all add: clearGroupings_def split: option.splits)

lemma registerSymbolId_graph: "referenceGraph (registerSymbolId st r s) = referenceGraph st"
  by (simp add: registerSymbolId_def)

lemma registerReflection_graph:
  "isObject st r \<Longrightarrow> referenceGraph (registerReflection st r symbolId filePath) = None"
  by (auto simp: registerReflection_def isObject_def Let_def registerSymbolId_graph
           split: option.splits)

lemma moveChildren_graph: "referenceGraph (moveChildren st source tgt cs) = referenceGraph st"
proof (induction cs arbitrary: st)
  case Nil
  then show ?case by simp
next
  case (Cons c cs)
  show ?case
  proof (cases "getReflectionById st c")
    case None
    then show ?thesis using Cons.IH by simp
  next
    case (Some ch)
    then show ?thesis
      by (cases "parent ch = Some source") (simp_all add: Cons.IH Let_def split: option.splits)
  qed
qed

lemma mergeMove_graph: "referenceGraph (mergeMove st source tgt) = None"
  by (simp add: mergeMove_def Let_def moveChildren_graph)

lemma storeInvariant_table: "storeInvariant st \<Longrightarrow> \<forall>c \<in> set (reflections st). c \<in> dom (objs st)"
  unfolding storeInvariant_def by blast

lemma applyOp_graphComplete:
  assumes inv: "storeInvariant st" and gc: "graphComplete st" and ap: "applyOp fuel st op = Some st'"
  shows "graphComplete st'"
proof (cases op)
  case (NewReflection i v nm k par)
  then show ?thesis
    using ap graphComplete_new_object [OF inv gc, of i]
    by (auto simp: newReflection_def split: if_splits)
next
  case (NewReferenceReflection i nm tgt par)
  then show ?thesis
    using ap graphComplete_new_object [OF inv gc, of i]
    by (auto simp: newReferenceReflection_def split: if_splits)
next
  case (AddChild p c)
  then show ?thesis using ap graphComplete_attachChild [OF gc] by (auto split: if_splits)
next
  case (RegisterReflection r symbolId filePath)
  then show ?thesis
    using ap registerReflection_graph graphComplete_uncached by (auto split: if_splits)
next
  case (RemoveReflection r)
  then have "removeReflection fuel st r = Some st'" using ap by (auto split: if_splits)
  then show ?thesis
    using graphComplete_removeReflection [OF storeInvariant_table [OF inv] gc] by blast
next
  case (MergeReflections source tgt)
  then have m: "mergeReflections fuel st source tgt = Some st'" using ap by (auto split: if_splits)
  then have fin: "\<not> mergeLoopsForever st source tgt"
    by (auto simp: mergeReflections_def split: if_splits)
  then obtain st5 where r: "removeReflection fuel (mergeMove st source tgt) source = Some st5"
      and res: "st' = clearGroupings st5 tgt"
    using m by (auto simp: mergeReflections_def split: option.splits)
  have "graphComplete st5"
    using graphComplete_removeReflection
      [OF storeInvariant_table [OF storeInvariant_mergeMove [OF inv fin]]
          graphComplete_uncached [OF mergeMove_graph] r] .
  then show ?thesis unfolding res by (rule graphComplete_clearGroupings)
qed

lemma runOps_graphComplete:
  "storeInvariant st \<Longrightarrow> graphComplete st \<Longrightarrow> runOps fuel st ops = Some st' \<Longrightarrow> graphComplete st'"
proof (induction ops arbitrary: st)
  case Nil
  then show ?case by simp
next
  case (Cons op ops)
  then obtain st1 where a: "applyOp fuel st op = Some st1" and b: "runOps fuel st1 ops = Some st'"
    by (auto split: option.splits)
  show ?case
    using Cons.IH [OF applyOp_invariant [OF Cons.prems(1) a]
                      applyOp_graphComplete [OF Cons.prems(1) Cons.prems(2) a] b] .
qed

lemma removeReflection_deletes_entry:
  assumes "removeReflection n st a = Some st'"
  shows "reflectionChildren st' a = None"
proof -
  obtain m where n: "n = Suc (Suc m)"
    using assms by (cases n; cases "n - 1") auto
  define st1 where "st1 = getReferenceGraph (st\<lparr> files := fr_removeReflection (files st) a \<rparr>)"
  from assms obtain st2 where "removeReferrers m st1 (referrers st1 a) = Some st2"
    unfolding n by (auto simp: st1_def Let_def split: option.splits)
  define st3 where "st3 = st2\<lparr> referenceGraph :=
                            map_option (\<lambda>graph. graph(a := None)) (referenceGraph st2) \<rparr>"
  from assms \<open>removeReferrers m st1 (referrers st1 a) = Some st2\<close>
  obtain st4 where "removeChildren m st3 a (childrenOf st3 a) = Some st4"
      and c: "st' = detachFromParent (unregisterSymbol
                (st4\<lparr> reflectionChildren := (reflectionChildren st4)(a := None) \<rparr>) a) a"
    unfolding n
    by (auto simp: st1_def [symmetric] st3_def [symmetric] Let_def split: option.splits)
  show ?thesis unfolding c by (simp add: detachFromParent_fields unregisterSymbol_fields)
qed

text \<open>
  Claim C8, amended. In any store built by constructor calls, \<open>addChild\<close>, registrations,
  removals and merges, a call \<open>removeReflection(a)\<close> that returns takes \<open>a\<close> out of the id table
  together with every reflection listed under \<open>a\<close> in the children index whose parent is \<open>a\<close>;
  no reference reflection that is left refers to a reflection that was removed; the entry
  of \<open>a\<close> in the children index is deleted, and the entry of every reflection that is left,
  the parent of \<open>a\<close> among them, is what it was, so it still names \<open>a\<close>.
\<close>

theorem cascading_removal:
  assumes run: "runOps fuel0 (newProjectReflection i nm registry) ops = Some st"
    and rm: "removeReflection fuel st a = Some st'"
  shows "getReflectionById st' a = None \<and>
         (\<forall>b \<in> set (childrenOf st a). parentOf st b = Some a \<longrightarrow> getReflectionById st' b = None) \<and>
         (\<forall>ref \<in> set (reflections st'). \<forall>t \<in> set (reflections st).
             refersTo st ref t \<longrightarrow> t \<in> set (reflections st')) \<and>
         reflectionChildren st' a = None \<and>
         (\<forall>p \<in> set (reflections st'). reflectionChildren st' p = reflectionChildren st p)"
proof -
  have inv: "storeInvariant st" using runOps_invariant [OF storeInvariant_new run] .
  have gc: "graphComplete st"
    using runOps_graphComplete [OF storeInvariant_new graphComplete_uncached run]
    by (simp add: newProjectReflection_def)
  have ok: "\<forall>c \<in> set (reflections st). c \<in> dom (objs st)" using storeInvariant_table [OF inv] .
  have sh: "shrinks st st'" and gone: "a \<notin> set (reflections st')"
    using removal_shrinks(1) [OF rm] by simp_all
  have ca: "cascades (getReferenceGraph st) st'" using removal_graph [OF ok rm] .
  have gc0: "graphComplete (getReferenceGraph st)" using graphComplete_getReferenceGraph [OF ok gc] .
  have del: "reflectionChildren st' a = None" using removeReflection_deletes_entry [OF rm] .
  have 1: "getReflectionById st' a = None" using gone by (simp add: getReflectionById_def)
  have 2: "\<forall>b \<in> set (childrenOf st a). parentOf st b = Some a \<longrightarrow> getReflectionById st' b = None"
  proof (intro ballI impI)
    fix b assume b: "b \<in> set (childrenOf st a)" "parentOf st b = Some a"
    have "childrenOf st' a = []" using del by (simp add: childrenOf_def)
    moreover have "childrenOf st' a = childrenOf st a \<or>
          (childrenOf st' a = [] \<and>
           (\<forall>c \<in> set (childrenOf st a). parentOf st c = Some a \<longrightarrow> c \<notin> set (reflections st')))"
      using sh unfolding shrinks_def by blast
    ultimately have "b \<notin> set (reflections st')" using b by auto
    then show "getReflectionById st' b = None" by (simp add: getReflectionById_def)
  qed
  have 3: "\<forall>ref \<in> set (reflections st'). \<forall>t \<in> set (reflections st).
             refersTo st ref t \<longrightarrow> t \<in> set (reflections st')"
  proof (intro ballI impI, rule ccontr)
    fix ref t
    assume r: "ref \<in> set (reflections st')" and t: "t \<in> set (reflections st)"
      and rt: "refersTo st ref t" and n: "t \<notin> set (reflections st')"
    have r0: "ref \<in> set (reflections st)" using r sh by (auto simp: shrinks_def)
    have "referenceGraph (getReferenceGraph st) \<noteq> None" using ca cascades_pre
      by (auto simp: getReferenceGraph_def split: option.splits)
    then have "ref \<in> set (referrers (getReferenceGraph st) t)"
      using gc0 t r0 rt unfolding graphComplete_def
      by (auto simp: getReferenceGraph_fields refersTo_cong [OF getReferenceGraph_fields(1)])
    moreover have "\<forall>x \<in> set (referrers (getReferenceGraph st) t). x \<notin> set (reflections st')"
      using ca t n unfolding cascades_def by (simp add: getReferenceGraph_fields)
    ultimately show False using r by blast
  qed
  have 5: "\<forall>p \<in> set (reflections st'). reflectionChildren st' p = reflectionChildren st p"
  proof
    fix p assume p: "p \<in> set (reflections st')"
    have "reflectionChildren st' p = reflectionChildren (getReferenceGraph st) p \<or>
          (reflectionChildren st' p = None \<and> p \<notin> set (reflections st'))"
      using ca unfolding cascades_def by blast
    then show "reflectionChildren st' p = reflectionChildren st p"
      using p by (simp add: getReferenceGraph_fields)
  qed
  show ?thesis using 1 2 3 del 5 by blast
qed

lemma fuel_Suc:
  "removeReflection n st r = Some st' \<Longrightarrow> removeReflection (Suc n) st r = Some st'"
  "removeReflection_inner n st r = Some st' \<Longrightarrow> removeReflection_inner (Suc n) st r = Some st'"
  "removeReferrers n st is = Some st' \<Longrightarrow> removeReferrers (Suc n) st is = Some st'"
  "removeChildren n st r cs = Some st' \<Longrightarrow> removeChildren (Suc n) st r cs = Some st'"
proof (induction n st r and n st r and n st "is" and n st r cs
       arbitrary: st' and st' and st' and st'
       rule: removeReflection_removeReflection_inner_removeReferrers_removeChildren.induct)
  case (1 st r)
  then show ?case by simp
next
  case (2 n st r)
  from "2.prems" obtain st1 where a: "removeReflection_inner n st r = Some st1"
      and b: "st' = detachFromParent st1 r"
    by (auto split: option.splits)
  show ?case using "2.IH" [OF a] b by simp
next
  case (3 st r)
  then show ?case by simp
next
  case (4 n st r)
  define st1 where "st1 = getReferenceGraph (st\<lparr> files := fr_removeReflection (files st) r \<rparr>)"
  from "4.prems" obtain st2 where a: "removeReferrers n st1 (referrers st1 r) = Some st2"
    by (auto simp: st1_def Let_def split: option.splits)
  define st3 where "st3 = st2\<lparr> referenceGraph :=
                            map_option (\<lambda>graph. graph(r := None)) (referenceGraph st2) \<rparr>"
  from "4.prems" a obtain st4 where b: "removeChildren n st3 r (childrenOf st3 r) = Some st4"
      and c: "st' = unregisterSymbol (st4\<lparr> reflectionChildren := (reflectionChildren st4)(r := None) \<rparr>) r"
    by (auto simp: st1_def [symmetric] st3_def [symmetric] Let_def split: option.splits)
  have a': "removeReferrers (Suc n) st1 (referrers st1 r) = Some st2"
    using "4.IH"(1) [OF st1_def a] .
  have b': "removeChildren (Suc n) st3 r (childrenOf st3 r) = Some st4"
    using "4.IH"(2) [OF st1_def a st3_def b] .
  show ?case
    unfolding removeReflection_inner.simps(2) [of "Suc n"] Let_def st1_def [symmetric]
    using a' b' c by (simp add: st3_def)
next
  case (5 n st)
  then show ?case by simp
next
  case (6 n st i "is")
  show ?case
  proof (cases "getReflectionById st i")
    case None
    then show ?thesis using "6.IH"(1) "6.prems" by simp
  next
    case (Some ref)
    with "6.prems" obtain st1 where a: "removeReflection n st i = Some st1"
        and b: "removeReferrers n st1 is = Some st'"
      by (auto split: option.splits)
    show ?thesis using "6.IH"(2) [OF Some a] "6.IH"(3) [OF Some a b] Some by simp
  qed
next
  case (7 n st r)
  then show ?case by simp
next
  case (8 n st r c cs)
  show ?case
  proof (cases "getReflectionById st c")
    case None
    then show ?thesis using "8.IH"(1) "8.prems" by simp
  next
    case (Some child)
    show ?thesis
    proof (cases "parent child = Some r")
      case True
      with Some "8.prems" obtain st1 where a: "removeReflection_inner n st c = Some st1"
          and b: "removeChildren n st1 r cs = Some st'"
        by (auto split: option.splits)
      show ?thesis
        using "8.IH"(2) [OF Some True a] "8.IH"(3) [OF Some True a b] Some True by simp
    next
      case False
      then show ?thesis using "8.IH"(4) [OF Some False] Some "8.prems" by simp
    qed
  qed
qed

lemma fuel_mono: "removeReflection n st r = Some st' \<Longrightarrow> removeReflection (n + k) st r = Some st'"
proof (induction k)
  case 0
  then show ?case by simp
next
  case (Suc k)
  then have "removeReflection (Suc (n + k)) st r = Some st'" by (intro fuel_Suc(1)) simp
  then show ?case by (simp only: add_Suc_right)
qed

lemma removalScenario_runs:
  "runOps 0 (newProjectReflection 1 ''R'' newFileRegistry) removalOps = Some removalScenario"
proof -
  have "\<not> Option.is_none (runOps 0 (newProjectReflection 1 ''R'' newFileRegistry) removalOps)"
    by code_simp
  then show ?thesis by (auto simp: removalScenario_def Option.is_none_def)
qed

lemma afterRemoval_runs: "removeReflection 5 removalScenario 2 = Some afterRemoval"
proof -
  have "\<not> Option.is_none (removeReflection 5 removalScenario 2)"
    by code_simp
  then show ?thesis by (auto simp: afterRemoval_def Option.is_none_def)
qed

lemma scenario_before:
  "reflections removalScenario = [1, 2, 3, 4, 5, 6, 7]"
  "map (childrenOf removalScenario) [1, 2, 3] = [[2, 4, 5, 6, 7], [3], []]"
  "map (parentOf removalScenario) [2, 3] = [Some 1, Some 2]"
  by code_simp+

text \<open>
  Claim C8 as stated has the children index of \<open>R\<close> lose the id 2. In the scenario the
  removal takes \<open>A\<close> and \<open>B\<close> out of the id table and leaves the list of \<open>R\<close> as it was.
\<close>

theorem cascading_removal_counterexample:
  "removeReflection 5 removalScenario 2 = Some afterRemoval \<and>
   getReflectionById afterRemoval 2 = None \<and>
   getReflectionById afterRemoval 3 = None \<and>
   childrenOf afterRemoval 1 = [2, 4, 5, 6, 7] \<and>
   2 \<in> set (childrenOf afterRemoval 1)"
proof -
  have "Option.is_none (getReflectionById afterRemoval 2)"
       "Option.is_none (getReflectionById afterRemoval 3)"
       "childrenOf afterRemoval 1 = [2, 4, 5, 6, 7]"
    by code_simp+
  then show ?thesis using afterRemoval_runs by (simp add: Option.is_none_def)
qed

theorem cascading_removal_witness:
  "runOps 0 (newProjectReflection 1 ''R'' newFileRegistry) removalOps = Some removalScenario \<and>
   (\<forall>k. removeReflection (5 + k) removalScenario 2 = Some afterRemoval) \<and>
   getReflectionById afterRemoval 2 = None \<and>
   getReflectionById afterRemoval 3 = None \<and>
   reflections afterRemoval = [1, 6, 7] \<and>
   reflectionChildren afterRemoval 2 = None \<and>
   reflectionChildren afterRemoval 3 = None \<and>
   reflectionChildren afterRemoval 1 = reflectionChildren removalScenario 1 \<and>
   childrenOf afterRemoval 1 = [2, 4, 5, 6, 7] \<and>
   map_option children (objs afterRemoval 1) = Some (Some [6, 7])"
proof -
  note t = cascading_removal [OF removalScenario_runs afterRemoval_runs]
  have a: "getReflectionById afterRemoval 2 = None" "reflectionChildren afterRemoval 2 = None"
    using t by simp_all
  have "3 \<in> set (childrenOf removalScenario 2)" "parentOf removalScenario 3 = Some 2"
    by code_simp+
  then have b: "getReflectionById afterRemoval 3 = None" using t by blast
  have c: "reflections afterRemoval = [1, 6, 7]" "childrenOf afterRemoval 1 = [2, 4, 5, 6, 7]"
      "map_option children (objs afterRemoval 1) = Some (Some [6, 7])"
      "Option.is_none (reflectionChildren afterRemoval 3)"
    by code_simp+
  then have "1 \<in> set (reflections afterRemoval)" by simp
  then have d: "reflectionChildren afterRemoval 1 = reflectionChildren removalScenario 1"
    using t by blast
  have e: "\<forall>k. removeReflection (5 + k) removalScenario 2 = Some afterRemoval"
    using fuel_mono [OF afterRemoval_runs] by simp
  show ?thesis using removalScenario_runs a b c d e by (simp add: Option.is_none_def)
qed

section \<open>Properties of the symbol index\<close>

lemma registerReflection_symbols:
  assumes "objs st r = Some reflection"
  shows "symbolToReflectionIdMap (registerReflection st r (Some s) None) =
           symbolToReflectionIdMap (registerSymbolId st r s)"
    and "reflectionIdToSymbolIdMap (registerReflection st r (Some s) None) =
           (reflectionIdToSymbolIdMap st)(r \<mapsto> s)"
    and "removedSymbolIds (registerReflection st r (Some s) None) = removedSymbolIds st - {s}"
  using assms
  by (simp_all add: registerReflection_def Let_def registerSymbolId_def
        split: option.splits SymbolEntry.splits)

lemma registerReflection_childrenOf:
  assumes "objs st r = Some reflection" "parent reflection \<noteq> Some p"
  shows "childrenOf (registerReflection st r symbolId filePath) p = childrenOf st p"
  using assms
  by (auto simp: childrenOf_def registerReflection_fields [OF assms(1)] split: option.splits)

lemma removeReflection_leaf:
  assumes "referrers (getReferenceGraph st) r = []" and "childrenOf st r = []"
  shows "removeReflection (Suc (Suc n)) st r =
           Some (detachFromParent
                   (unregisterSymbol
                      ((getReferenceGraph st)
                         \<lparr> files := fr_removeReflection (files st) r,
                           referenceGraph := map_option (\<lambda>graph. graph(r := None))
                                               (referenceGraph (getReferenceGraph st)),
                           reflectionChildren := (reflectionChildren st)(r := None) \<rparr>) r) r)"
proof -
  let ?st1 = "getReferenceGraph (st\<lparr> files := fr_removeReflection (files st) r \<rparr>)"
  have st1: "?st1 = (getReferenceGraph st)\<lparr> files := fr_removeReflection (files st) r \<rparr>"
    by (rule getReferenceGraph_files)
  have r1: "referrers ?st1 r = []"
    using assms(1) by (simp add: st1 referrers_def)
  have c: "childrenOf (?st1\<lparr> referenceGraph := map_option (\<lambda>graph. graph(r := None))
                                               (referenceGraph ?st1) \<rparr>) r = []"
    using assms(2) by (simp add: st1 childrenOf_def getReferenceGraph_fields)
  have "removeReflection_inner (Suc n) st r =
          Some (unregisterSymbol
                  ((?st1\<lparr> referenceGraph := map_option (\<lambda>graph. graph(r := None))
                                               (referenceGraph ?st1) \<rparr>)
                     \<lparr> reflectionChildren :=
                         (reflectionChildren (?st1\<lparr> referenceGraph :=
                            map_option (\<lambda>graph. graph(r := None)) (referenceGraph ?st1) \<rparr>))
                         (r := None) \<rparr>) r)"
    by (simp only: removeReflection_inner.simps Let_def r1 removeReferrers.simps option.case c
          removeChildren.simps)
  then show ?thesis
    by (simp add: st1 getReferenceGraph_fields)
qed

lemma detachFromParent_symbols:
  "symbolToReflectionIdMap (detachFromParent st r) = symbolToReflectionIdMap st"
  "reflectionIdToSymbolIdMap (detachFromParent st r) = reflectionIdToSymbolIdMap st"
  "removedSymbolIds (detachFromParent st r) = removedSymbolIds st"
  by (simp_all add: detachFromParent_def split: option.splits prod.splits)

lemma detachFromParent_other:
  assumes "parentOf st r \<noteq> Some x"
  shows "objs (detachFromParent st r) x = objs st x"
  using assms
  by (auto simp: detachFromParent_def parentOf_def split: option.splits prod.splits)

lemma unregisterSymbol_many:
  assumes "reflectionIdToSymbolIdMap st r = Some s" "symbolToReflectionIdMap st s = Some (ManyIds ids)"
  shows "symbolToReflectionIdMap (unregisterSymbol st r) =
           (symbolToReflectionIdMap st)(s \<mapsto> ManyIds (remove1 r ids))"
    and "removedSymbolIds (unregisterSymbol st r) =
           (if remove1 r ids = [] then insert s (removedSymbolIds st) else removedSymbolIds st)"
    and "reflectionIdToSymbolIdMap (unregisterSymbol st r) = (reflectionIdToSymbolIdMap st)(r := None)"
  using assms by (simp_all add: unregisterSymbol_def Let_def removeIfPresent_def)

lemma leaf_removal_effect:
  assumes unref: "referrers (getReferenceGraph st) r = []" and leaf: "childrenOf st r = []"
    and rs: "reflectionIdToSymbolIdMap st r = Some s"
    and sr: "symbolToReflectionIdMap st s = Some (ManyIds ids)"
  shows "\<exists>st'. removeReflection (Suc (Suc n)) st r = Some st' \<and>
     symbolToReflectionIdMap st' = (symbolToReflectionIdMap st)(s \<mapsto> ManyIds (remove1 r ids)) \<and>
     removedSymbolIds st' =
       (if remove1 r ids = [] then insert s (removedSymbolIds st) else removedSymbolIds st) \<and>
     reflectionIdToSymbolIdMap st' = (reflectionIdToSymbolIdMap st)(r := None) \<and>
     reflections st' = deleteKey r (reflections st) \<and>
     (\<forall>x. parentOf st r \<noteq> Some x \<longrightarrow> objs st' x = objs st x) \<and>
     (\<forall>p. p \<noteq> r \<longrightarrow> childrenOf st' p = childrenOf st p) \<and>
     referenceGraph st' \<noteq> None \<and>
     (\<forall>t. t \<noteq> r \<longrightarrow> referrers st' t = referrers (getReferenceGraph st) t)"
proof -
  define x where "x = (getReferenceGraph st)
                         \<lparr> files := fr_removeReflection (files st) r,
                           referenceGraph := map_option (\<lambda>graph. graph(r := None))
                                               (referenceGraph (getReferenceGraph st)),
                           reflectionChildren := (reflectionChildren st)(r := None) \<rparr>"
  define u where "u = unregisterSymbol x r"
  have rm: "removeReflection (Suc (Suc n)) st r = Some (detachFromParent u r)"
    unfolding u_def x_def by (rule removeReflection_leaf [OF unref leaf])
  have g: "symbolToReflectionIdMap (getReferenceGraph st) = symbolToReflectionIdMap st"
      "reflectionIdToSymbolIdMap (getReferenceGraph st) = reflectionIdToSymbolIdMap st"
      "removedSymbolIds (getReferenceGraph st) = removedSymbolIds st"
      "referenceGraph (getReferenceGraph st) \<noteq> None"
    by (simp_all add: getReferenceGraph_def split: option.splits)
  have xs: "reflectionIdToSymbolIdMap x r = Some s" "symbolToReflectionIdMap x s = Some (ManyIds ids)"
    using rs sr by (simp_all add: x_def g)
  note us = unregisterSymbol_many [OF xs]
  have 1: "symbolToReflectionIdMap (detachFromParent u r) =
             (symbolToReflectionIdMap st)(s \<mapsto> ManyIds (remove1 r ids))"
    by (simp add: detachFromParent_symbols u_def us) (simp add: x_def g)
  have 2: "removedSymbolIds (detachFromParent u r) =
       (if remove1 r ids = [] then insert s (removedSymbolIds st) else removedSymbolIds st)"
    by (simp add: detachFromParent_symbols u_def us) (simp add: x_def g)
  have 3: "reflectionIdToSymbolIdMap (detachFromParent u r) = (reflectionIdToSymbolIdMap st)(r := None)"
    by (simp add: detachFromParent_symbols u_def us) (simp add: x_def g)
  have 4: "reflections (detachFromParent u r) = deleteKey r (reflections st)"
    by (simp add: detachFromParent_reflections u_def unregisterSymbol_fields)
       (simp add: x_def getReferenceGraph_fields)
  have ou: "objs u = objs st"
    by (simp add: u_def unregisterSymbol_fields) (simp add: x_def getReferenceGraph_fields)
  have 5: "\<forall>y. parentOf st r \<noteq> Some y \<longrightarrow> objs (detachFromParent u r) y = objs st y"
  proof (intro allI impI)
    fix y assume "parentOf st r \<noteq> Some y"
    then have "parentOf u r \<noteq> Some y" by (simp add: parentOf_def ou)
    then show "objs (detachFromParent u r) y = objs st y"
      using detachFromParent_other [of u r y] by (simp add: ou)
  qed
  have 6: "\<forall>p. p \<noteq> r \<longrightarrow> childrenOf (detachFromParent u r) p = childrenOf st p"
    by (simp add: childrenOf_def detachFromParent_fields u_def unregisterSymbol_fields)
       (simp add: x_def)
  have gu: "referenceGraph (detachFromParent u r) =
              map_option (\<lambda>graph. graph(r := None)) (referenceGraph (getReferenceGraph st))"
    by (simp add: detachFromParent_fields u_def unregisterSymbol_graph) (simp add: x_def)
  have 7: "referenceGraph (detachFromParent u r) \<noteq> None" using g(4) by (simp add: gu)
  have 8: "\<forall>t. t \<noteq> r \<longrightarrow> referrers (detachFromParent u r) t = referrers (getReferenceGraph st) t"
    using g(4) by (auto simp: referrers_def gu split: option.splits)
  show ?thesis using rm 1 2 3 4 5 6 7 8 by blast
qed

text \<open>
  The symbol index when the first reflection registered for a symbol has an id other than
  0. Two reflections that are objects of the store, neither the parent of the other nor its
  own, with no children listed in the index, are registered for a symbol \<open>s\<close> that has no
  entry; no reference reflection of the table refers to either. Then the entry of \<open>s\<close> is the
  list of the two ids in registration order and the lookup answers the two reflections in
  that order; removing the first leaves a lookup that answers the second alone and no
  tombstone; removing the second as well leaves an empty lookup and a tombstone, while a
  symbol that was never registered has an empty lookup and no tombstone.
\<close>

theorem symbol_index_order_and_tombstone:
  assumes unseen: "symbolToReflectionIdMap st s = None"
    and nonzero: "r1 \<noteq> 0" and distinct: "r1 \<noteq> r2"
    and o1: "objs st r1 = Some firstRefl" and o2: "objs st r2 = Some secondRefl"
    and p1: "parent firstRefl \<noteq> Some r1" "parent firstRefl \<noteq> Some r2"
    and p2: "parent secondRefl \<noteq> Some r1" "parent secondRefl \<noteq> Some r2"
    and leaves: "childrenOf st r1 = []" "childrenOf st r2 = []"
    and st2: "st2 = registerReflection (registerReflection st r1 (Some s) None) r2 (Some s) None"
    and unref: "referrers (getReferenceGraph st2) r1 = []" "referrers (getReferenceGraph st2) r2 = []"
  shows "symbolToReflectionIdMap st2 s = Some (ManyIds [r1, r2]) \<and>
         getReflectionsFromSymbolId st2 s = [Some firstRefl, Some secondRefl] \<and>
         \<not> symbolIdHasBeenRemoved st2 s \<and>
         (\<exists>st3 st4.
            removeReflection (Suc (Suc n)) st2 r1 = Some st3 \<and>
            getReflectionsFromSymbolId st3 s = [Some secondRefl] \<and>
            \<not> symbolIdHasBeenRemoved st3 s \<and>
            removeReflection (Suc (Suc m)) st3 r2 = Some st4 \<and>
            getReflectionsFromSymbolId st4 s = [] \<and>
            symbolIdHasBeenRemoved st4 s \<and>
            (\<forall>s'. s' \<noteq> s \<and> symbolToReflectionIdMap st s' = None \<and> \<not> symbolIdHasBeenRemoved st s' \<longrightarrow>
                  getReflectionsFromSymbolId st4 s' = [] \<and> \<not> symbolIdHasBeenRemoved st4 s'))"
proof -
  define st1 where "st1 = registerReflection st r1 (Some s) None"
  have st2': "st2 = registerReflection st1 r2 (Some s) None" by (simp add: st2 st1_def)
  have ob1: "objs st1 = objs st" unfolding st1_def by (rule registerReflection_fields(1) [OF o1])
  have o2': "objs st1 r2 = Some secondRefl" by (simp add: ob1 o2)
  have ob2: "objs st2 = objs st" unfolding st2' by (simp add: registerReflection_fields(1) [OF o2'] ob1)
  have s1: "symbolToReflectionIdMap st1 = (symbolToReflectionIdMap st)(s \<mapsto> OneId r1)"
    unfolding st1_def
    by (simp add: registerReflection_symbols(1) [OF o1] registerSymbolId_def unseen)
  have s2: "symbolToReflectionIdMap st2 = (symbolToReflectionIdMap st)(s \<mapsto> ManyIds [r1, r2])"
    unfolding st2'
    by (simp add: registerReflection_symbols(1) [OF o2'] registerSymbolId_def s1 nonzero)
  have rs2: "reflectionIdToSymbolIdMap st2 = (reflectionIdToSymbolIdMap st)(r1 \<mapsto> s, r2 \<mapsto> s)"
    unfolding st2' by (simp add: registerReflection_symbols(2) [OF o2'])
                      (simp add: st1_def registerReflection_symbols(2) [OF o1])
  have rem2: "removedSymbolIds st2 = removedSymbolIds st - {s}"
    unfolding st2' by (simp add: registerReflection_symbols(3) [OF o2'])
                      (auto simp: st1_def registerReflection_symbols(3) [OF o1])
  have t2: "set (reflections st2) = insert r2 (insert r1 (set (reflections st)))"
    unfolding st2' by (simp add: registerReflection_fields(2) [OF o2'] set_setKey)
                      (simp add: st1_def registerReflection_fields(2) [OF o1] set_setKey)
  have g2: "getReflectionById st2 r1 = Some firstRefl" "getReflectionById st2 r2 = Some secondRefl"
    by (simp_all add: getReflectionById_def t2 ob2 o1 o2)
  have c1: "childrenOf st1 r1 = []" "childrenOf st1 r2 = []"
    unfolding st1_def
    using leaves registerReflection_childrenOf [OF o1 p1(1)] registerReflection_childrenOf [OF o1 p1(2)]
    by simp_all
  have c2: "childrenOf st2 r1 = []" "childrenOf st2 r2 = []"
    unfolding st2'
    using c1 registerReflection_childrenOf [OF o2' p2(1)] registerReflection_childrenOf [OF o2' p2(2)]
    by simp_all
  have A: "symbolToReflectionIdMap st2 s = Some (ManyIds [r1, r2])" by (simp add: s2)
  have B: "getReflectionsFromSymbolId st2 s = [Some firstRefl, Some secondRefl]"
    by (simp add: getReflectionsFromSymbolId_def s2 g2)
  have C: "\<not> symbolIdHasBeenRemoved st2 s" by (simp add: symbolIdHasBeenRemoved_def rem2)
  have rs21: "reflectionIdToSymbolIdMap st2 r1 = Some s" using distinct by (simp add: rs2)
  obtain st3 where
    rm3: "removeReflection (Suc (Suc n)) st2 r1 = Some st3" and
    s3: "symbolToReflectionIdMap st3 = (symbolToReflectionIdMap st2)(s \<mapsto> ManyIds (remove1 r1 [r1, r2]))" and
    rem3: "removedSymbolIds st3 =
       (if remove1 r1 [r1, r2] = [] then insert s (removedSymbolIds st2) else removedSymbolIds st2)" and
    rs3: "reflectionIdToSymbolIdMap st3 = (reflectionIdToSymbolIdMap st2)(r1 := None)" and
    t3: "reflections st3 = deleteKey r1 (reflections st2)" and
    ob3: "\<forall>x. parentOf st2 r1 \<noteq> Some x \<longrightarrow> objs st3 x = objs st2 x" and
    c3: "\<forall>p. p \<noteq> r1 \<longrightarrow> childrenOf st3 p = childrenOf st2 p" and
    gr3: "referenceGraph st3 \<noteq> None" and
    rf3: "\<forall>t. t \<noteq> r1 \<longrightarrow> referrers st3 t = referrers (getReferenceGraph st2) t"
    using leaf_removal_effect [OF unref(1) c2(1) rs21 A, of n] by blast
  have par1: "parentOf st2 r1 \<noteq> Some r2" using p1 by (simp add: parentOf_def ob2 o1)
  have g3: "getReflectionById st3 r2 = Some secondRefl"
    using ob3 par1 distinct by (simp add: getReflectionById_def t3 deleteKey_def t2 ob2 o2)
  have s3': "symbolToReflectionIdMap st3 = (symbolToReflectionIdMap st)(s \<mapsto> ManyIds [r2])"
    by (simp add: s3 s2)
  have D: "getReflectionsFromSymbolId st3 s = [Some secondRefl]"
    by (simp add: getReflectionsFromSymbolId_def s3' g3)
  have rem3': "removedSymbolIds st3 = removedSymbolIds st - {s}" by (simp add: rem3 rem2)
  have E: "\<not> symbolIdHasBeenRemoved st3 s" by (simp add: symbolIdHasBeenRemoved_def rem3')
  have unref3: "referrers (getReferenceGraph st3) r2 = []"
    using rf3 distinct unref(2) by (simp add: getReferenceGraph_cached [OF gr3])
  have leaf3: "childrenOf st3 r2 = []" using c3 distinct c2(2) by simp
  have rs32: "reflectionIdToSymbolIdMap st3 r2 = Some s" using distinct by (simp add: rs3 rs2)
  have sr3: "symbolToReflectionIdMap st3 s = Some (ManyIds [r2])" by (simp add: s3')
  obtain st4 where
    rm4: "removeReflection (Suc (Suc m)) st3 r2 = Some st4" and
    s4: "symbolToReflectionIdMap st4 = (symbolToReflectionIdMap st3)(s \<mapsto> ManyIds (remove1 r2 [r2]))" and
    rem4: "removedSymbolIds st4 =
       (if remove1 r2 [r2] = [] then insert s (removedSymbolIds st3) else removedSymbolIds st3)"
    using leaf_removal_effect [OF unref3 leaf3 rs32 sr3, of m] by blast
  have s4': "symbolToReflectionIdMap st4 = (symbolToReflectionIdMap st)(s \<mapsto> ManyIds [])"
    by (simp add: s4 s3')
  have rem4': "removedSymbolIds st4 = insert s (removedSymbolIds st)" by (auto simp: rem4 rem3')
  have F: "getReflectionsFromSymbolId st4 s = []" by (simp add: getReflectionsFromSymbolId_def s4')
  have G: "symbolIdHasBeenRemoved st4 s" by (simp add: symbolIdHasBeenRemoved_def rem4')
  have H: "\<forall>s'. s' \<noteq> s \<and> symbolToReflectionIdMap st s' = None \<and> \<not> symbolIdHasBeenRemoved st s' \<longrightarrow>
                  getReflectionsFromSymbolId st4 s' = [] \<and> \<not> symbolIdHasBeenRemoved st4 s'"
    by (simp add: getReflectionsFromSymbolId_def s4' symbolIdHasBeenRemoved_def rem4')
  show ?thesis using A B C rm3 D E rm4 F G H by blast
qed

theorem symbol_index_order_and_tombstone_witness:
  "symbolToReflectionIdMap symbolScenario ''sym'' = Some (ManyIds [2, 3]) \<and>
   getReflectionsFromSymbolId symbolScenario ''sym'' =
     [Some (blankReflection Declaration ''f'' (KindOther 0) (Some 1)),
      Some (blankReflection Declaration ''f'' (KindOther 0) (Some 1))] \<and>
   (\<exists>st3 st4.
      removeReflection 2 symbolScenario 2 = Some st3 \<and>
      getReflectionsFromSymbolId st3 ''sym'' =
        [Some (blankReflection Declaration ''f'' (KindOther 0) (Some 1))] \<and>
      \<not> symbolIdHasBeenRemoved st3 ''sym'' \<and>
      removeReflection 2 st3 3 = Some st4 \<and>
      getReflectionsFromSymbolId st4 ''sym'' = [] \<and>
      symbolIdHasBeenRemoved st4 ''sym'' \<and>
      getReflectionsFromSymbolId st4 ''other'' = [] \<and>
      \<not> symbolIdHasBeenRemoved st4 ''other'')"
proof -
  let ?d = "blankReflection Declaration ''f'' (KindOther 0) (Some 1)"
  have unseen: "symbolToReflectionIdMap twoDeclarations ''sym'' = None"
    and o: "objs twoDeclarations 2 = Some ?d" "objs twoDeclarations 3 = Some ?d"
    and p: "parent ?d \<noteq> Some 2" "parent ?d \<noteq> Some 3"
    and leaves: "childrenOf twoDeclarations 2 = []" "childrenOf twoDeclarations 3 = []"
    and other: "symbolToReflectionIdMap twoDeclarations ''other'' = None"
      "\<not> symbolIdHasBeenRemoved twoDeclarations ''other''"
    by (simp_all add: twoDeclarations_def newReflection_def newProjectReflection_def
          blankReflection_def childrenOf_def symbolIdHasBeenRemoved_def)
  have unref: "referrers (getReferenceGraph symbolScenario) 2 = []"
      "referrers (getReferenceGraph symbolScenario) 3 = []"
    by code_simp+
  have nz: "(2::nat) \<noteq> 0" "(2::nat) \<noteq> 3" by simp_all
  note t = symbol_index_order_and_tombstone
             [OF unseen nz o p p leaves symbolScenario_def unref, of 0 0]
  then obtain st3 st4 where
    a: "removeReflection (Suc (Suc 0)) symbolScenario 2 = Some st3"
       "getReflectionsFromSymbolId st3 ''sym'' = [Some ?d]"
       "\<not> symbolIdHasBeenRemoved st3 ''sym''"
       "removeReflection (Suc (Suc 0)) st3 3 = Some st4"
       "getReflectionsFromSymbolId st4 ''sym'' = []"
       "symbolIdHasBeenRemoved st4 ''sym''"
       "\<forall>s'. s' \<noteq> ''sym'' \<and> symbolToReflectionIdMap twoDeclarations s' = None \<and>
             \<not> symbolIdHasBeenRemoved twoDeclarations s' \<longrightarrow>
             getReflectionsFromSymbolId st4 s' = [] \<and> \<not> symbolIdHasBeenRemoved st4 s'"
    by blast
  have b: "getReflectionsFromSymbolId st4 ''other'' = [] \<and> \<not> symbolIdHasBeenRemoved st4 ''other''"
    using a(7) other by simp
  have two: "Suc (Suc 0) = 2" by simp
  show ?thesis using t a(1-6) b unfolding two by blast
qed

text \<open>
  Claim C7, at an input where the code departs from it. The claim has two registrations
  for one symbol produce the list of the two ids. \<open>registerSymbolId\<close> tests the previous
  entry with \<open>if (previous)\<close>, which the id 0 fails: when the first reflection has the id 0,
  the second registration replaces the entry by the second id alone, and a lookup of the
  symbol answers the second reflection only, though the first is still in the id table and
  still maps to the symbol.
\<close>

theorem symbol_index_first_id_zero:
  "symbolToReflectionIdMap (zeroIdScenario s) s = Some (OneId 1) \<and>
   getReflectionsFromSymbolId (zeroIdScenario s) s =
     [Some (blankReflection Declaration ''d'' (KindOther 0) (Some 0))] \<and>
   getReflectionById (zeroIdScenario s) 0 = Some (blankReflection Project ''R'' KindProject None) \<and>
   getSymbolIdFromReflection (zeroIdScenario s) 0 = Some s"
proof -
  define a where "a = registerReflection (newProjectReflection 0 ''R'' newFileRegistry) 0 (Some s) None"
  define b where "b = newReflection a 1 Declaration ''d'' (KindOther 0) (Some 0)"
  have oa: "objs (newProjectReflection 0 ''R'' newFileRegistry) 0 =
              Some (blankReflection Project ''R'' KindProject None)"
    by (simp add: newProjectReflection_def)
  have a1: "symbolToReflectionIdMap a = [s \<mapsto> OneId 0]"
      "reflectionIdToSymbolIdMap a = [0 \<mapsto> s]"
      "objs a = [0 \<mapsto> blankReflection Project ''R'' KindProject None]"
      "reflections a = [0]"
    unfolding a_def
    by (simp_all add: registerReflection_symbols [OF oa] registerReflection_fields [OF oa]
          registerSymbolId_def setKey_def)
       (simp_all add: newProjectReflection_def)
  have ob: "objs b 1 = Some (blankReflection Declaration ''d'' (KindOther 0) (Some 0))"
    by (simp add: b_def newReflection_def)
  have b1: "symbolToReflectionIdMap b = [s \<mapsto> OneId 0]" "reflectionIdToSymbolIdMap b = [0 \<mapsto> s]"
      "reflections b = [0]"
      "objs b = [0 \<mapsto> blankReflection Project ''R'' KindProject None,
                 1 \<mapsto> blankReflection Declaration ''d'' (KindOther 0) (Some 0)]"
    by (simp_all add: b_def newReflection_def a1)
  have z: "zeroIdScenario s = registerReflection b 1 (Some s) None"
    by (simp add: zeroIdScenario_def a_def b_def)
  have 1: "symbolToReflectionIdMap (zeroIdScenario s) = [s \<mapsto> OneId 1]"
    by (simp only: z registerReflection_symbols [OF ob]) (simp add: registerSymbolId_def b1)
  have 2: "set (reflections (zeroIdScenario s)) = {0, 1}" "objs (zeroIdScenario s) = objs b"
    by (simp_all only: z registerReflection_fields [OF ob] set_setKey) (auto simp: b1)
  have 3: "reflectionIdToSymbolIdMap (zeroIdScenario s) 0 = Some s"
    by (simp only: z registerReflection_symbols [OF ob]) (simp add: b1)
  show ?thesis
    by (simp add: getReflectionsFromSymbolId_def getReflectionById_def getSymbolIdFromReflection_def
          1 2 3 b1)
qed

section \<open>Properties of the deserializer\<close>

subsection \<open>The symbol map of a wire project\<close>

lemma getReflectionById_registerSymbolId:
  "getReflectionById (registerSymbolId p n sid) = getReflectionById p"
  unfolding registerSymbolId_def getReflectionById_def by (rule ext) simp

lemma lookupRevived_registerSymbolId:
  "lookupRevived (registerSymbolId p n sid) s i = lookupRevived p s i"
  by (simp only: lookupRevived_def getReflectionById_registerSymbolId)

lemma lookupRevived_logger:
  "lookupRevived p (s\<lparr> logger := l \<rparr>) i = lookupRevived p s i"
  by (simp add: lookupRevived_def)

lemma registerSymbolIds_result:
  "registerSymbolIds es p s =
     (foldl (\<lambda>q e. registerSymbolId q (the (lookupRevived p s (fst e))) (snd e)) p
        (filter (\<lambda>e. lookupRevived p s (fst e) \<noteq> None) es),
      s\<lparr> logger := logger s @ map warningFor (filter (\<lambda>e. lookupRevived p s (fst e) = None) es) \<rparr>)"
proof (induction es arbitrary: p s)
  case Nil
  show ?case by simp
next
  case (Cons e es)
  show ?case
  proof (cases "lookupRevived p s (fst e)")
    case None
    then show ?thesis
      by (simp add: Cons.IH lookupRevived_logger)
  next
    case (Some n)
    then show ?thesis
      by (simp add: Cons.IH lookupRevived_registerSymbolId)
  qed
qed

lemma registerSymbolId_keeps:
  "objs (registerSymbolId p n sid) = objs p"
  "reflections (registerSymbolId p n sid) = reflections p"
  "reflectionChildren (registerSymbolId p n sid) = reflectionChildren p"
  "files (registerSymbolId p n sid) = files p"
  by (simp_all add: registerSymbolId_def)

lemma foldl_registerSymbolId_keeps:
  "objs (foldl (\<lambda>q e. registerSymbolId q (f e) (g e)) p es) = objs p \<and>
   reflections (foldl (\<lambda>q e. registerSymbolId q (f e) (g e)) p es) = reflections p \<and>
   reflectionChildren (foldl (\<lambda>q e. registerSymbolId q (f e) (g e)) p es) = reflectionChildren p \<and>
   files (foldl (\<lambda>q e. registerSymbolId q (f e) (g e)) p es) = files p"
  by (induction es arbitrary: p) (simp_all add: registerSymbolId_keeps)

text \<open>
  Claim C4. The callback that \<open>ProjectReflection.fromObject\<close> defers for the symbol map
  never throws and queues nothing. For every entry whose old id has no new id, or whose new
  id names no reflection of the project, it appends one warning that names the old id, in
  the order of the entries, and changes nothing else of the deserializer. The project it
  leaves is the one that \<open>registerSymbolId\<close> gives over the other entries, in their order,
  as if the skipped entries were not in the map; its reflections, id table, children index
  and file registry are those it was given.
\<close>

theorem symbol_fixup_warns_and_continues:
  "\<exists>p'. runCallback (symbolIdMapCallback m) (p, de) =
          Inr (p', de\<lparr> dstate := (dstate de)\<lparr> logger := logger (dstate de) @
                   map warningFor
                     (filter (\<lambda>e. lookupRevived p (dstate de) (fst e) = None) (symbolEntries m)) \<rparr> \<rparr>) \<and>
        p' = foldl (\<lambda>q e. registerSymbolId q (the (lookupRevived p (dstate de) (fst e))) (snd e)) p
               (filter (\<lambda>e. lookupRevived p (dstate de) (fst e) \<noteq> None) (symbolEntries m)) \<and>
        objs p' = objs p \<and> reflections p' = reflections p \<and>
        reflectionChildren p' = reflectionChildren p \<and> files p' = files p"
  using foldl_registerSymbolId_keeps
          [of "\<lambda>e. the (lookupRevived p (dstate de) (fst e))" snd p
              "filter (\<lambda>e. lookupRevived p (dstate de) (fst e) \<noteq> None) (symbolEntries m)"]
  by (simp add: symbolIdMapCallback_def registerSymbolIds_result)

theorem symbol_fixup_warns_and_continues_witness:
  "map (lookupRevived fixupProject (dstate fixupDeserializer)) [10, 11, 12] = [Some 2, None, None] \<and>
   \<not> isl (runCallback (symbolIdMapCallback (Some fixupEntries)) (fixupProject, fixupDeserializer)) \<and>
   logger (dstate (snd (projr (runCallback (symbolIdMapCallback (Some fixupEntries))
                                  (fixupProject, fixupDeserializer))))) =
     [Warn (serialized_project_referenced_0_not_part_of_project ''11''),
      Warn (serialized_project_referenced_0_not_part_of_project ''12'')] \<and>
   fst (projr (runCallback (symbolIdMapCallback (Some fixupEntries)) (fixupProject, fixupDeserializer))) =
     registerSymbolId fixupProject 2 ''a'' \<and>
   reflections (fst (projr (runCallback (symbolIdMapCallback (Some fixupEntries))
                              (fixupProject, fixupDeserializer)))) = [1, 2]"
proof -
  have l: "map (lookupRevived fixupProject (dstate fixupDeserializer)) [10, 11, 12] = [Some 2, None, None]"
    by code_simp
  have r: "reflections fixupProject = [1, 2]" "logger (dstate fixupDeserializer) = []"
    by code_simp+
  from symbol_fixup_warns_and_continues [of "Some fixupEntries" fixupProject fixupDeserializer]
  obtain p' where
    1: "runCallback (symbolIdMapCallback (Some fixupEntries)) (fixupProject, fixupDeserializer) =
          Inr (p', fixupDeserializer\<lparr> dstate := (dstate fixupDeserializer)
                 \<lparr> logger := logger (dstate fixupDeserializer) @
                     map warningFor
                       (filter (\<lambda>e. lookupRevived fixupProject (dstate fixupDeserializer) (fst e) = None)
                          (symbolEntries (Some fixupEntries))) \<rparr> \<rparr>)"
    and 2: "p' = foldl (\<lambda>q e. registerSymbolId q
                     (the (lookupRevived fixupProject (dstate fixupDeserializer) (fst e))) (snd e))
                  fixupProject
                  (filter (\<lambda>e. lookupRevived fixupProject (dstate fixupDeserializer) (fst e) \<noteq> None)
                     (symbolEntries (Some fixupEntries)))"
    and 3: "reflections p' = reflections fixupProject"
    by blast
  have w: "map warningFor [(11, ''b''), (12, ''c'')] =
             [Warn (serialized_project_referenced_0_not_part_of_project ''11''),
              Warn (serialized_project_referenced_0_not_part_of_project ''12'')]"
    by code_simp
  show ?thesis
    using l r w 3 unfolding 1 2 by (simp add: symbolEntries_def fixupEntries_def)
qed

subsection \<open>Unsupported schema versions\<close>

lemma runDeferredPass_queue_empty:
  assumes "runDeferredPass w = Inr w'"
  shows "deferred (snd w') = []"
  using assms unfolding runDeferredPass_def
  by (auto split: prod.splits sum.splits if_splits)

lemma reviveEach_queue_empty:
  assumes "reviveEach A ps w = Inr w'" and "deferred (snd w) = []"
  shows "deferred (snd w') = []"
  using assms
proof (induction ps arbitrary: w)
  case Nil
  then show ?case by simp
next
  case (Cons proj rest)
  obtain p de where w: "w = (p, de)" by (cases w)
  from Cons.prems(1) obtain w1 w2 where
    "runDeferredPass w1 = Inr w2" and r: "reviveEach A rest w2 = Inr w'"
    unfolding w by (auto simp: Let_def split: if_splits sum.splits)
  then have "deferred (snd w2) = []" using runDeferredPass_queue_empty by blast
  with r show ?case by (rule Cons.IH)
qed

lemma reviveEach_append:
  "reviveEach A (pre @ post) w =
     (case reviveEach A pre w of Inl thrown \<Rightarrow> Inl thrown | Inr w' \<Rightarrow> reviveEach A post w')"
proof (induction pre arbitrary: w)
  case Nil
  show ?case by simp
next
  case (Cons proj rest)
  obtain p de where w: "w = (p, de)" by (cases w)
  show ?case unfolding w by (simp add: Let_def Cons.IH split: sum.splits)
qed

lemma reviveEach_unsupported:
  assumes "schemaVersion obj \<notin> set supportedSchemaVersions" and "deferred (snd w) = []"
    and "reviveEach A pre w = Inr w'"
  shows "reviveEach A (pre @ obj # post) w =
           Inl (Error (unsupportedVersionMessage (schemaVersion obj)), Some (fst w'), snd w')"
proof -
  have q: "deferred (snd w') = []" using assms(3,2) by (rule reviveEach_queue_empty)
  obtain p' de' where w': "w' = (p', de')" by (cases w')
  show ?thesis using assms(1) q unfolding reviveEach_append assms(3) w' by simp
qed

lemma unsupportedVersionMessage_text:
  "unsupportedVersionMessage v =
     ''Attempted to deserialize version '' @ [CHR 0x22] @ v @ [CHR 0x22] @
     '' JSON, which is not supported. Supported versions: 2.0''"
  by (simp add: unsupportedVersionMessage_def supportedSchemaVersions_def JSON_SCHEMA_VERSION_def)

text \<open>
  Claim C2. A wire project whose schema version is not supported, given to a deserializer
  with no work queued: \<open>reviveProject\<close> throws the error whose message names the version
  and the supported one, with no project made and the deserializer as it was, and so does
  \<open>reviveProjects\<close> when it hands the only project over. Otherwise \<open>reviveProjects\<close> throws
  the same error when its loop reaches that wire project, with the merged root and the
  deserializer exactly as the wire projects before it have left them: nothing of the
  unsupported one is registered. For two unsupported wire projects the root holds itself
  alone.
\<close>

theorem unsupported_version_fails_before_registration:
  assumes "schemaVersion obj \<notin> set supportedSchemaVersions" and "deferred de = []"
  shows "reviveProject A nm obj options de =
           Inl (Error (''Attempted to deserialize version '' @ [CHR 0x22] @ schemaVersion obj @
                       [CHR 0x22] @ '' JSON, which is not supported. Supported versions: 2.0''),
                None, de) \<and>
         (\<not> alwaysCreateEntryPointModule options \<longrightarrow>
            reviveProjects A nm [obj] options de = reviveProject A nm obj options de) \<and>
         ((length (pre @ obj # post) \<noteq> 1 \<or> alwaysCreateEntryPointModule options) \<longrightarrow>
          reviveEach A pre (newRoot nm options de) = Inr (merged, de1) \<longrightarrow>
            reviveProjects A nm (pre @ obj # post) options de =
              Inl (Error (''Attempted to deserialize version '' @ [CHR 0x22] @ schemaVersion obj @
                          [CHR 0x22] @ '' JSON, which is not supported. Supported versions: 2.0''),
                   Some merged, de1))"
proof (intro conjI impI)
  show "reviveProject A nm obj options de =
           Inl (Error (''Attempted to deserialize version '' @ [CHR 0x22] @ schemaVersion obj @
                       [CHR 0x22] @ '' JSON, which is not supported. Supported versions: 2.0''),
                None, de)"
    using assms by (simp add: reviveProject_def unsupportedVersionMessage_text)
next
  assume "\<not> alwaysCreateEntryPointModule options"
  then show "reviveProjects A nm [obj] options de = reviveProject A nm obj options de"
    by (simp add: reviveProjects_def)
next
  assume c: "length (pre @ obj # post) \<noteq> 1 \<or> alwaysCreateEntryPointModule options"
    and r: "reviveEach A pre (newRoot nm options de) = Inr (merged, de1)"
  have q: "deferred (snd (newRoot nm options de)) = []" using assms(2) by (simp add: newRoot_def)
  have "reviveEach A (pre @ obj # post) (newRoot nm options de) =
          Inl (Error (unsupportedVersionMessage (schemaVersion obj)), Some merged, de1)"
    using reviveEach_unsupported [OF assms(1) q r] by simp
  moreover have "\<not> (length (pre @ obj # post) = 1 \<and> \<not> alwaysCreateEntryPointModule options)"
    using c by blast
  ultimately show "reviveProjects A nm (pre @ obj # post) options de =
              Inl (Error (''Attempted to deserialize version '' @ [CHR 0x22] @ schemaVersion obj @
                          [CHR 0x22] @ '' JSON, which is not supported. Supported versions: 2.0''),
                   Some merged, de1)"
    unfolding reviveProjects_def by (simp only: if_False sum.case unsupportedVersionMessage_text)
qed

theorem unsupported_version_fails_before_registration_witness:
  "schemaVersion (wireProject ''1.0'' ''P1'') \<notin> set supportedSchemaVersions \<and>
   deferred (newDeserializer 1) = [] \<and>
   reviveProject plainAbsent ''merged'' (wireProject ''1.0'' ''P1'') (plainOptions False) (newDeserializer 1) =
     Inl (Error (''Attempted to deserialize version '' @ [CHR 0x22] @ ''1.0'' @ [CHR 0x22] @
                 '' JSON, which is not supported. Supported versions: 2.0''),
          None, newDeserializer 1) \<and>
   reviveProjects plainAbsent ''merged'' [wireProject ''1.0'' ''P1'', wireProject ''0.9'' ''P2'']
       (plainOptions False) (newDeserializer 1) =
     Inl (Error (''Attempted to deserialize version '' @ [CHR 0x22] @ ''1.0'' @ [CHR 0x22] @
                 '' JSON, which is not supported. Supported versions: 2.0''),
          Some (newProjectReflection 1 ''merged'' newFileRegistry),
          snd (newRoot ''merged'' (plainOptions False) (newDeserializer 1))) \<and>
   reflections (newProjectReflection 1 ''merged'' newFileRegistry) = [1] \<and>
   childrenOf (newProjectReflection 1 ''merged'' newFileRegistry) 1 = [] \<and>
   map_sum (\<lambda>thrown. (fst thrown, map_option reflections (fst (snd thrown)))) (\<lambda>w. ())
     (reviveProjects plainAbsent ''merged'' [wireProject ''2.0'' ''P0'', wireProject ''1.0'' ''P1'']
        (plainOptions False) (newDeserializer 1)) =
     Inl (Error (''Attempted to deserialize version '' @ [CHR 0x22] @ ''1.0'' @ [CHR 0x22] @
                 '' JSON, which is not supported. Supported versions: 2.0''), Some [1, 2])"
proof -
  have v: "schemaVersion (wireProject ''1.0'' ''P1'') \<notin> set supportedSchemaVersions"
    by code_simp
  have q: "deferred (newDeserializer 1) = []" by (simp add: newDeserializer_def)
  have s: "schemaVersion (wireProject ''1.0'' ''P1'') = ''1.0''" by (simp add: wireProject_def)
  have n: "fst (newRoot ''merged'' (plainOptions False) (newDeserializer 1)) =
             newProjectReflection 1 ''merged'' newFileRegistry"
    by (simp add: newRoot_def plainOptions_def newDeserializer_def)
  have e: "reviveEach plainAbsent [] (newRoot ''merged'' (plainOptions False) (newDeserializer 1)) =
             Inr (newProjectReflection 1 ''merged'' newFileRegistry,
                  snd (newRoot ''merged'' (plainOptions False) (newDeserializer 1)))"
    using n by (simp add: prod_eq_iff)
  have i: "\<not> isl (reviveEach plainAbsent [wireProject ''2.0'' ''P0'']
                     (newRoot ''merged'' (plainOptions False) (newDeserializer 1)))"
    by code_simp
  then obtain p' de' where
    f: "reviveEach plainAbsent [wireProject ''2.0'' ''P0'']
          (newRoot ''merged'' (plainOptions False) (newDeserializer 1)) = Inr (p', de')"
    by (cases "reviveEach plainAbsent [wireProject ''2.0'' ''P0'']
                 (newRoot ''merged'' (plainOptions False) (newDeserializer 1))") auto
  have "reflections (fst (projr (reviveEach plainAbsent [wireProject ''2.0'' ''P0'']
          (newRoot ''merged'' (plainOptions False) (newDeserializer 1))))) = [1, 2]"
    by code_simp
  then have g: "reflections p' = [1, 2]" unfolding f by simp
  note t1 = unsupported_version_fails_before_registration
              [OF v q, where A = plainAbsent and options = "plainOptions False" and pre = "[]"
                 and post = "[wireProject ''0.9'' ''P2'']" and nm = "''merged''"
                 and merged = "newProjectReflection 1 ''merged'' newFileRegistry"
                 and ?de1.0 = "snd (newRoot ''merged'' (plainOptions False) (newDeserializer 1))"]
  note t2 = unsupported_version_fails_before_registration
              [OF v q, where A = plainAbsent and options = "plainOptions False"
                 and pre = "[wireProject ''2.0'' ''P0'']" and post = "[]" and nm = "''merged''"
                 and merged = p' and ?de1.0 = de']
  have a: "reviveProject plainAbsent ''merged'' (wireProject ''1.0'' ''P1'') (plainOptions False) (newDeserializer 1) =
     Inl (Error (''Attempted to deserialize version '' @ [CHR 0x22] @ ''1.0'' @ [CHR 0x22] @
                 '' JSON, which is not supported. Supported versions: 2.0''),
          None, newDeserializer 1)"
    using t1 unfolding s by blast
  have b: "reviveProjects plainAbsent ''merged'' [wireProject ''1.0'' ''P1'', wireProject ''0.9'' ''P2'']
       (plainOptions False) (newDeserializer 1) =
     Inl (Error (''Attempted to deserialize version '' @ [CHR 0x22] @ ''1.0'' @ [CHR 0x22] @
                 '' JSON, which is not supported. Supported versions: 2.0''),
          Some (newProjectReflection 1 ''merged'' newFileRegistry),
          snd (newRoot ''merged'' (plainOptions False) (newDeserializer 1)))"
    using t1 e unfolding s by simp
  have c: "reviveProjects plainAbsent ''merged'' [wireProject ''2.0'' ''P0'', wireProject ''1.0'' ''P1'']
        (plainOptions False) (newDeserializer 1) =
     Inl (Error (''Attempted to deserialize version '' @ [CHR 0x22] @ ''1.0'' @ [CHR 0x22] @
                 '' JSON, which is not supported. Supported versions: 2.0''), Some p', de')"
    using t2 f unfolding s by simp
  have d: "reflections (newProjectReflection 1 ''merged'' newFileRegistry) = [1]"
      "childrenOf (newProjectReflection 1 ''merged'' newFileRegistry) 1 = []"
    by code_simp+
  have h: "map_sum (\<lambda>thrown. (fst thrown, map_option reflections (fst (snd thrown)))) (\<lambda>w. ())
     (reviveProjects plainAbsent ''merged'' [wireProject ''2.0'' ''P0'', wireProject ''1.0'' ''P1'']
        (plainOptions False) (newDeserializer 1)) =
     Inl (Error (''Attempted to deserialize version '' @ [CHR 0x22] @ ''1.0'' @ [CHR 0x22] @
                 '' JSON, which is not supported. Supported versions: 2.0''), Some [1, 2])"
    unfolding c by (simp add: g)
  show ?thesis
    by (intro conjI v q a b d h)
qed

subsection \<open>Deferred work\<close>

lemma runDeferred_effects:
  assumes "\<forall>cb \<in> set cbs. neverThrows cb"
  shows "runDeferred cbs (p, de) =
           Inr (fst (foldl (\<lambda>w cb. effect cb w) (p, dstate de) cbs),
                de\<lparr> dstate := snd (foldl (\<lambda>w cb. effect cb w) (p, dstate de) cbs),
                    deferred := deferred de @ newWork cbs (p, dstate de) \<rparr>)"
  using assms
proof (induction cbs arbitrary: p de)
  case Nil
  show ?case by simp
next
  case (Cons cb rest)
  obtain f where cb: "cb = Callback f" by (cases cb)
  from Cons.prems have "\<not> isl (f p (dstate de))" by (simp add: neverThrows_def cb)
  then obtain p1 s1 q1 where f: "f p (dstate de) = Inr (p1, s1, q1)"
    by (cases "f p (dstate de)") auto
  have e: "effect cb (p, dstate de) = (p1, s1)" "queuedBy cb (p, dstate de) = q1"
    by (simp_all add: effect_def queuedBy_def cb f)
  have r: "\<forall>cb \<in> set rest. neverThrows cb" using Cons.prems by simp
  show ?case
    by (simp add: cb f Cons.IH [OF r])
       (simp add: e [unfolded cb])
qed

lemma runDeferredPass_effects:
  assumes "\<forall>cb \<in> set (deferred de). neverThrows cb"
    and "after = foldl (\<lambda>w cb. effect cb w) (p, dstate de) (deferred de)"
    and "again = newWork (deferred de) (p, dstate de)"
  shows "runDeferredPass (p, de) =
           (if again \<noteq> []
            then Inl (Error ''Work may not be double deferred when deserializing.'',
                      Some (fst after), de\<lparr> dstate := snd after, deferred := again \<rparr>)
            else if activeReflection (snd after) \<noteq> []
            then Inl (Error ''Imbalanced reflection deserialization'',
                      Some (fst after), de\<lparr> dstate := snd after, deferred := [] \<rparr>)
            else Inr (fst after, de\<lparr> dstate := snd after, deferred := [] \<rparr>))"
proof -
  have "runDeferred (deferred de) (p, de\<lparr> deferred := [] \<rparr>) =
          Inr (fst after, de\<lparr> dstate := snd after, deferred := again \<rparr>)"
    using runDeferred_effects [OF assms(1), of p "de\<lparr> deferred := [] \<rparr>"]
    by (simp add: assms(2,3))
  then show ?thesis unfolding runDeferredPass_def by simp
qed

lemma neverThrows_logging: "neverThrows (logging tag queued)"
  by (simp add: neverThrows_def logging_def)

lemma neverThrows_linkFilesCallback: "neverThrows (linkFilesCallback refls)"
  by (simp add: neverThrows_def linkFilesCallback_def)

lemma neverThrows_symbolIdMapCallback: "neverThrows (symbolIdMapCallback m)"
  by (simp add: neverThrows_def symbolIdMapCallback_def split: prod.splits)

lemma effect_logging:
  "effect (logging tag queued) w =
     (fst w, (snd w)\<lparr> logger := logger (snd w) @
                [Warn (serialized_project_referenced_0_not_part_of_project tag)] \<rparr>)"
  "queuedBy (logging tag queued) w = queued"
  by (simp_all add: effect_def queuedBy_def logging_def)

lemma effect_linkFilesCallback_Nil:
  "effect (linkFilesCallback []) w = w" "queuedBy (linkFilesCallback []) w = []"
  by (simp_all add: effect_def queuedBy_def linkFilesCallback_def)

lemma effect_symbolIdMapCallback_None:
  "effect (symbolIdMapCallback None) w = w" "queuedBy (symbolIdMapCallback None) w = []"
  by (simp_all add: effect_def queuedBy_def symbolIdMapCallback_def symbolEntries_def)

lemma foldl_de_defer: "deferred (foldl de_defer de cbs) = deferred de @ cbs"
  by (induction cbs arbitrary: de) (simp_all add: de_defer_def)

lemma foldl_de_defer_dstate: "dstate (foldl de_defer de cbs) = dstate de"
  by (induction cbs arbitrary: de) (simp_all add: de_defer_def)

text \<open>The first pass over the wire project of a root alone, with the given callbacks deferred.\<close>

lemma queueing_pass:
  "\<exists>p de. deserializer_fromObject (queueingAbsent cbs) (project_fromObject (queueingAbsent cbs))
            (REFLECTION_ID (dstate (newDeserializer 1))) (wireProject ''2.0'' ''P'')
            (newProject [] (wireProject ''2.0'' ''P'') (plainOptions False) (newDeserializer 1)) =
          Inr (p, de) \<and>
        deferred de = cbs @ [linkFilesCallback [], symbolIdMapCallback None] \<and>
        logger (dstate de) = [] \<and> activeReflection (dstate de) = []"
  by (simp add: deserializer_fromObject_def project_fromObject_def queueingAbsent_def plainAbsent_def
        wireProject_def newProject_def plainOptions_def newDeserializer_def files_fromObject_def
        de_defer_def foldl_de_defer foldl_de_defer_dstate split: prod.splits)

text \<open>
  Claim C3. Let the first pass of \<open>reviveProject\<close>, or of one turn of the loop of
  \<open>reviveProjects\<close>, return with callbacks in the queue, none of which throws. Then the
  project and the deserializer fields after the revival are those that the callbacks give
  when each is called once, from the head of the queue to its end, which is the order in
  which \<open>defer\<close> has queued them, each on what the one before it has left. The callbacks
  queued meanwhile are not called: if there is one, the revival throws the assertion on
  double deferral, with the new callbacks left in the queue; if there is none, it checks
  that the stack of active reflections is empty and returns, or goes on with the next wire
  project.
\<close>

theorem deferred_work_runs_once_in_order:
  assumes "deferred de0 = []" and "schemaVersion obj \<in> set supportedSchemaVersions"
    and "\<forall>cb \<in> set (deferred de). neverThrows cb"
    and "after = foldl (\<lambda>w cb. effect cb w) (p, dstate de) (deferred de)"
    and "again = newWork (deferred de) (p, dstate de)"
  shows "(deserializer_fromObject A (project_fromObject A) (REFLECTION_ID (dstate de0)) obj
            (newProject nm obj options de0) = Inr (p, de) \<longrightarrow>
          reviveProject A nm obj options de0 =
            (if again \<noteq> []
             then Inl (Error ''Work may not be double deferred when deserializing.'',
                       Some (fst after), de\<lparr> dstate := snd after, deferred := again \<rparr>)
             else if activeReflection (snd after) \<noteq> []
             then Inl (Error ''Imbalanced reflection deserialization'',
                       Some (fst after), de\<lparr> dstate := snd after, deferred := [] \<rparr>)
             else Inr (fst after, resetDeserializer (de\<lparr> dstate := snd after, deferred := [] \<rparr>)))) \<and>
         (deserializer_fromObject A (declarationFromObject A) (REFLECTION_ID (dstate de0)) obj
            (newProjectModule obj (root, de0)) = Inr (p, de) \<longrightarrow>
          reviveEach A (obj # rest) (root, de0) =
            (if again \<noteq> []
             then Inl (Error ''Work may not be double deferred when deserializing.'',
                       Some (fst after), de\<lparr> dstate := snd after, deferred := again \<rparr>)
             else if activeReflection (snd after) \<noteq> []
             then Inl (Error ''Imbalanced reflection deserialization'',
                       Some (fst after), de\<lparr> dstate := snd after, deferred := [] \<rparr>)
             else reviveEach A rest (fst after, de\<lparr> dstate := snd after, deferred := [] \<rparr>)))"
proof (intro conjI impI)
  note pass = runDeferredPass_effects [OF assms(3,4,5)]
  {
    assume "deserializer_fromObject A (project_fromObject A) (REFLECTION_ID (dstate de0)) obj
              (newProject nm obj options de0) = Inr (p, de)"
    then show "reviveProject A nm obj options de0 =
            (if again \<noteq> []
             then Inl (Error ''Work may not be double deferred when deserializing.'',
                       Some (fst after), de\<lparr> dstate := snd after, deferred := again \<rparr>)
             else if activeReflection (snd after) \<noteq> []
             then Inl (Error ''Imbalanced reflection deserialization'',
                       Some (fst after), de\<lparr> dstate := snd after, deferred := [] \<rparr>)
             else Inr (fst after, resetDeserializer (de\<lparr> dstate := snd after, deferred := [] \<rparr>)))"
      using assms(1,2) by (simp add: reviveProject_def pass)
  }
  {
    assume "deserializer_fromObject A (declarationFromObject A) (REFLECTION_ID (dstate de0)) obj
              (newProjectModule obj (root, de0)) = Inr (p, de)"
    then show "reviveEach A (obj # rest) (root, de0) =
            (if again \<noteq> []
             then Inl (Error ''Work may not be double deferred when deserializing.'',
                       Some (fst after), de\<lparr> dstate := snd after, deferred := again \<rparr>)
             else if activeReflection (snd after) \<noteq> []
             then Inl (Error ''Imbalanced reflection deserialization'',
                       Some (fst after), de\<lparr> dstate := snd after, deferred := [] \<rparr>)
             else reviveEach A rest (fst after, de\<lparr> dstate := snd after, deferred := [] \<rparr>))"
      using assms(1,2) by (simp add: pass)
  }
qed

theorem deferred_work_runs_once_in_order_witness:
  "deferred (newDeserializer 1) = [] \<and>
   schemaVersion (wireProject ''2.0'' ''P'') \<in> set supportedSchemaVersions \<and>
   map_sum (\<lambda>thrown. (fst thrown, logger (dstate (snd (snd thrown))), length (deferred (snd (snd thrown)))))
           (\<lambda>w. logger (dstate (snd w)))
     (reviveProject (queueingAbsent [logging ''a'' [], logging ''b'' [], logging ''c'' []]) []
        (wireProject ''2.0'' ''P'') (plainOptions False) (newDeserializer 1)) =
     Inr [Warn (serialized_project_referenced_0_not_part_of_project ''a''),
          Warn (serialized_project_referenced_0_not_part_of_project ''b''),
          Warn (serialized_project_referenced_0_not_part_of_project ''c'')] \<and>
   map_sum (\<lambda>thrown. (fst thrown, logger (dstate (snd (snd thrown))), length (deferred (snd (snd thrown)))))
           (\<lambda>w. logger (dstate (snd w)))
     (reviveProject (queueingAbsent [logging ''a'' [], logging ''b'' [logging ''d'' []], logging ''c'' []]) []
        (wireProject ''2.0'' ''P'') (plainOptions False) (newDeserializer 1)) =
     Inl (Error ''Work may not be double deferred when deserializing.'',
          [Warn (serialized_project_referenced_0_not_part_of_project ''a''),
           Warn (serialized_project_referenced_0_not_part_of_project ''b''),
           Warn (serialized_project_referenced_0_not_part_of_project ''c'')], 1)"
proof -
  have idle: "deferred (newDeserializer 1) = []" by (simp add: newDeserializer_def)
  have version: "schemaVersion (wireProject ''2.0'' ''P'') \<in> set supportedSchemaVersions"
    by code_simp
  have run: "map_sum (\<lambda>thrown. (fst thrown, logger (dstate (snd (snd thrown))),
                                 length (deferred (snd (snd thrown)))))
               (\<lambda>w. logger (dstate (snd w)))
               (reviveProject (queueingAbsent [logging ''a'' [], logging ''b'' more, logging ''c'' []]) []
                  (wireProject ''2.0'' ''P'') (plainOptions False) (newDeserializer 1)) =
             (if more \<noteq> []
              then Inl (Error ''Work may not be double deferred when deserializing.'',
                        [Warn (serialized_project_referenced_0_not_part_of_project ''a''),
                         Warn (serialized_project_referenced_0_not_part_of_project ''b''),
                         Warn (serialized_project_referenced_0_not_part_of_project ''c'')],
                        length more)
              else Inr [Warn (serialized_project_referenced_0_not_part_of_project ''a''),
                        Warn (serialized_project_referenced_0_not_part_of_project ''b''),
                        Warn (serialized_project_referenced_0_not_part_of_project ''c'')])"
    for more
  proof -
    obtain p de where
      pass: "deserializer_fromObject
               (queueingAbsent [logging ''a'' [], logging ''b'' more, logging ''c'' []])
               (project_fromObject (queueingAbsent [logging ''a'' [], logging ''b'' more, logging ''c'' []]))
               (REFLECTION_ID (dstate (newDeserializer 1))) (wireProject ''2.0'' ''P'')
               (newProject [] (wireProject ''2.0'' ''P'') (plainOptions False) (newDeserializer 1)) =
             Inr (p, de)"
      and queue: "deferred de = [logging ''a'' [], logging ''b'' more, logging ''c'' []] @
                                [linkFilesCallback [], symbolIdMapCallback None]"
      and log: "logger (dstate de) = []" and active: "activeReflection (dstate de) = []"
      using queueing_pass by blast
    have nothrow: "\<forall>cb \<in> set (deferred de). neverThrows cb"
      unfolding queue
      by (simp add: neverThrows_logging neverThrows_linkFilesCallback neverThrows_symbolIdMapCallback)
    have after: "foldl (\<lambda>w cb. effect cb w) (p, dstate de) (deferred de) =
                   (p, (dstate de)\<lparr> logger :=
                      [Warn (serialized_project_referenced_0_not_part_of_project ''a''),
                       Warn (serialized_project_referenced_0_not_part_of_project ''b''),
                       Warn (serialized_project_referenced_0_not_part_of_project ''c'')] \<rparr>)"
      unfolding queue
      by (simp add: effect_logging effect_linkFilesCallback_Nil effect_symbolIdMapCallback_None log)
    have again: "newWork (deferred de) (p, dstate de) = more"
      unfolding queue
      by (simp add: effect_logging effect_linkFilesCallback_Nil effect_symbolIdMapCallback_None)
    note t = deferred_work_runs_once_in_order [OF idle version nothrow refl refl,
               where A = "queueingAbsent [logging ''a'' [], logging ''b'' more, logging ''c'' []]"
                 and p = p and nm = "[]" and options = "plainOptions False", THEN conjunct1]
    show ?thesis
      using t pass unfolding after again
      by (simp add: active resetDeserializer_def)
  qed
  show ?thesis
    using idle version run [of "[]"] run [of "[logging ''d'' []]"] by simp
qed

end
